theory Spec2Isabelle
  imports Main "HOL-Library.Sublist" "HOL-Library.Extended_Nat"
begin

section \<open>Values, exceptions and the observable trace\<close>

text \<open>
  A Python \<^verbatim>\<open>str\<close> is a sequence of code points, lone surrogates included (the
  JSON text \<^verbatim>\<open>"\ud800"\<close> parses to one). The literals of the program are ASCII and
  are written \<open>py ''...''\<close>.
\<close>

type_synonym pystr = "nat list"

definition py :: "string \<Rightarrow> pystr" where
  "py s = map of_char s"

text \<open>
  The program of \<^verbatim>\<open>openalex_crick_datasets.py\<close> handles values parsed from JSON:
  \<^verbatim>\<open>None\<close>, booleans, numbers, strings, lists and dictionaries. A dictionary is kept
  as an association list in insertion order (the order \<^verbatim>\<open>keys()\<close> reports); the
  keys of a dictionary are distinct. A finite float is given by its value, mantissa
  times two to the exponent, and by the text \<^verbatim>\<open>float.__repr__\<close> prints for it; the
  conversion between the two is not modelled.
\<close>

datatype pyfloat = Finite int int pystr | PosInf | NegInf | NaN

datatype json =
    JNull
  | JBool bool
  | JInt int
  | JFloat pyfloat
  | JStr pystr
  | JArr "json list"
  | JObj "(pystr \<times> json) list"

text \<open>
  The exception classes that can reach the program. \<^verbatim>\<open>requests\<close> raises
  \<open>ConnectionError\<close>, \<open>Timeout\<close> and \<open>HTTPError\<close> (the last from
  \<^verbatim>\<open>raise_for_status\<close>); all three derive from
  \<^verbatim>\<open>requests.exceptions.RequestException\<close>. A body that is not JSON makes
  \<^verbatim>\<open>response.json()\<close> raise \<^verbatim>\<open>requests.exceptions.JSONDecodeError\<close>
  (\<open>RequestsJSONDecodeError\<close>, a subclass of \<^verbatim>\<open>RequestException\<close> through
  \<^verbatim>\<open>InvalidJSONError\<close>) in requests 2.27 and later, and the standard library's
  \<^verbatim>\<open>json.JSONDecodeError\<close> (\<open>StdlibJSONDecodeError\<close>, a \<^verbatim>\<open>ValueError\<close>)
  in earlier releases. The repository pins no version, so both are possible
  outcomes of a request. \<open>UnicodeEncodeError\<close> is what a text stream with the
  UTF-8 encoding raises when it is given a lone surrogate.
\<close>

datatype exn =
    ConnectionError
  | Timeout
  | HTTPError
  | RequestsJSONDecodeError
  | StdlibJSONDecodeError
  | AttributeError
  | TypeError
  | OSError
  | UnicodeEncodeError

fun is_RequestException :: "exn \<Rightarrow> bool" where
  "is_RequestException ConnectionError = True"
| "is_RequestException Timeout = True"
| "is_RequestException HTTPError = True"
| "is_RequestException RequestsJSONDecodeError = True"
| "is_RequestException StdlibJSONDecodeError = False"
| "is_RequestException AttributeError = False"
| "is_RequestException TypeError = False"
| "is_RequestException OSError = False"
| "is_RequestException UnicodeEncodeError = False"

text \<open>A call either returns a value or raises.\<close>

datatype 'a result = Returned 'a | Raised exn

text \<open>
  What \<^verbatim>\<open>requests.get\<close>, \<^verbatim>\<open>raise_for_status\<close> and \<^verbatim>\<open>response.json()\<close>
  (lines 43 to 45) give together for one page: an exception, or the parsed body.
\<close>

datatype outcome = Raises exn | Body json

text \<open>
  A printed line is kept as the pieces of its f-string: literal text, an integer,
  a value formatted by \<^verbatim>\<open>str\<close>, the message of an exception, or the
  \<^verbatim>\<open>json.dumps\<close> of a list of keys.
\<close>

datatype frag = Lit string | Num int | Val json | ExnStr exn | KeysDump "pystr list"

text \<open>
  The effects of a run, in order: a GET with its \<^verbatim>\<open>per-page\<close> and
  \<^verbatim>\<open>page\<close> parameters, the pause between pages, a line on standard output and
  a completed write of a text to the output file.
\<close>

datatype event =
    Get int nat
  | Sleep
  | Print "frag list"
  | WriteFile string pystr

fun requests_of :: "event list \<Rightarrow> (int \<times> nat) list" where
  "requests_of [] = []"
| "requests_of (Get per_page page # es) = (per_page, page) # requests_of es"
| "requests_of (_ # es) = requests_of es"

section \<open>Python primitives the program uses\<close>

text \<open>Truth value of a parsed JSON value (\<^verbatim>\<open>not results\<close>, line 50).\<close>

fun truthy :: "json \<Rightarrow> bool" where
  "truthy JNull = False"
| "truthy (JBool b) = b"
| "truthy (JInt n) = (n \<noteq> 0)"
| "truthy (JFloat (Finite m e r)) = (m \<noteq> 0)"
| "truthy (JFloat _) = True"
| "truthy (JStr s) = (s \<noteq> [])"
| "truthy (JArr xs) = (xs \<noteq> [])"
| "truthy (JObj kvs) = (kvs \<noteq> [])"

text \<open>\<^verbatim>\<open>d.get(key, default)\<close>: only a dictionary has the method.\<close>

fun dict_get :: "json \<Rightarrow> pystr \<Rightarrow> json \<Rightarrow> exn + json" where
  "dict_get (JObj kvs) key dflt =
     (case map_of kvs key of None \<Rightarrow> Inr dflt | Some v \<Rightarrow> Inr v)"
| "dict_get _ key dflt = Inl AttributeError"

text \<open>
  \<^verbatim>\<open>all_datasets.extend(results)\<close>: a list gives its elements, a string its
  characters, a dictionary its keys; anything else is not iterable.
\<close>

fun list_extend :: "json list \<Rightarrow> json \<Rightarrow> exn + json list" where
  "list_extend acc (JArr xs) = Inr (acc @ xs)"
| "list_extend acc (JStr s) = Inr (acc @ map (\<lambda>c. JStr [c]) s)"
| "list_extend acc (JObj kvs) = Inr (acc @ map (\<lambda>kv. JStr (fst kv)) kvs)"
| "list_extend acc _ = Inl TypeError"

fun py_len :: "json \<Rightarrow> exn + nat" where
  "py_len (JArr xs) = Inr (length xs)"
| "py_len (JStr s) = Inr (length s)"
| "py_len (JObj kvs) = Inr (length kvs)"
| "py_len _ = Inl TypeError"

text \<open>\<^verbatim>\<open>xs[:n]\<close>: a negative bound counts from the end.\<close>

definition slice_to :: "'a list \<Rightarrow> int \<Rightarrow> 'a list" where
  "slice_to xs n =
     (if 0 \<le> n then take (nat n) xs else take (nat (int (length xs) + n)) xs)"

text \<open>
  \<^verbatim>\<open>max_results and len(all_datasets) >= max_results\<close> (line 60): \<^verbatim>\<open>None\<close>
  and \<open>0\<close> are both false.
\<close>

definition limit_hit :: "int option \<Rightarrow> nat \<Rightarrow> bool" where
  "limit_hit max_results n =
     (case max_results of None \<Rightarrow> False | Some m \<Rightarrow> m \<noteq> 0 \<and> m \<le> int n)"

text \<open>
  Text goes to standard output and to the file through a UTF-8 encoder with strict
  error handling: it accepts every code point but the surrogates.
\<close>

definition is_surrogate :: "nat \<Rightarrow> bool" where
  "is_surrogate c = (0xD800 \<le> c \<and> c \<le> 0xDFFF)"

definition encodable :: "pystr \<Rightarrow> bool" where
  "encodable s = list_all (\<lambda>c. \<not> is_surrogate c) s"

text \<open>
  \<^verbatim>\<open>print\<close> raises \<^verbatim>\<open>UnicodeEncodeError\<close> on a line that cannot be encoded. The
  literals of the program, integers and the ASCII output of \<^verbatim>\<open>json.dumps\<close> always
  can. \<^verbatim>\<open>str\<close> of a string is the string itself; of a list or a dictionary it is
  the \<^verbatim>\<open>repr\<close>, which escapes the surrogates of the strings inside. An integer
  is printed whatever its size, as CPython does where no limit is set on the
  digits of an integer (\<^verbatim>\<open>sys.set_int_max_str_digits(0)\<close>, and every release
  before 3.11).
\<close>

fun printable :: "frag \<Rightarrow> bool" where
  "printable (Val (JStr s)) = encodable s"
| "printable (Val (JFloat (Finite m e r))) = encodable r"
| "printable _ = True"

text \<open>
  A sequence of \<^verbatim>\<open>print\<close> calls: the lines before the first one that cannot be
  encoded are printed, and that one raises.
\<close>

fun print_all :: "frag list list \<Rightarrow> event list \<Rightarrow> unit result \<times> event list" where
  "print_all [] out = (Returned (), out)"
| "print_all (line # lines) out =
     (if list_all printable line then print_all lines (out @ [Print line])
      else (Raised UnicodeEncodeError, out))"

section \<open>The Fetcher: \<^verbatim>\<open>get_crick_datasets\<close>\<close>

text \<open>
  One pass through the body of \<^verbatim>\<open>while True\<close> (lines 40 to 72) either leaves
  the loop, with the value the function will return or the exception that
  escapes it, or goes round again with the grown list.
\<close>

datatype step = Stop "json list result" "event list" | Continue "json list" "event list"

text \<open>
  The \<^verbatim>\<open>except requests.exceptions.RequestException\<close> clause (lines 70 to 72),
  applied to an exception raised inside the \<^verbatim>\<open>try\<close> block.
\<close>

definition handle :: "exn \<Rightarrow> json list \<Rightarrow> event list \<Rightarrow> step" where
  "handle e all_datasets out =
     (if is_RequestException e
      then Stop (Returned all_datasets)
             (out @ [Print [Lit ''Error fetching data: '', ExnStr e]])
      else Stop (Raised e) out)"

definition page_report :: "nat \<Rightarrow> nat \<Rightarrow> nat \<Rightarrow> json \<Rightarrow> event list" where
  "page_report page n so_far count =
     [Print [Lit ''Page '', Num (int page), Lit '': Retrieved '', Num (int n), Lit '' datasets''],
      Print [Lit ''Total so far: '', Num (int so_far)],
      Print [Lit ''Total available: '', Val count, Lit [CHR 0x0A]]]"

definition fetch_page ::
  "(int \<Rightarrow> nat \<Rightarrow> outcome) \<Rightarrow> int \<Rightarrow> int option \<Rightarrow> json list \<Rightarrow> nat \<Rightarrow> step" where
  "fetch_page http_get per_page max_results all_datasets page =
     (case http_get per_page page of
        Raises e \<Rightarrow> handle e all_datasets [Get per_page page]
      | Body data \<Rightarrow>
          (case dict_get data (py ''results'') (JArr []) of
             Inl e \<Rightarrow> handle e all_datasets [Get per_page page]
           | Inr results \<Rightarrow>
          (case dict_get data (py ''meta'') (JObj []) of
             Inl e \<Rightarrow> handle e all_datasets [Get per_page page]
           | Inr meta \<Rightarrow>
          if \<not> truthy results then Stop (Returned all_datasets) [Get per_page page]
          else
          (case list_extend all_datasets results of
             Inl e \<Rightarrow> handle e all_datasets [Get per_page page]
           | Inr all_datasets' \<Rightarrow>
          (case py_len results of
             Inl e \<Rightarrow> handle e all_datasets' [Get per_page page]
           | Inr n \<Rightarrow>
          (case dict_get meta (py ''count'') (JStr (py ''unknown'')) of
             Inl e \<Rightarrow>
               handle e all_datasets'
                 (Get per_page page # take 2 (page_report page n (length all_datasets') JNull))
           | Inr count \<Rightarrow>
          if \<not> printable (Val count)
          then handle UnicodeEncodeError all_datasets'
                 (Get per_page page # take 2 (page_report page n (length all_datasets') count))
          else
          (let out = Get per_page page # page_report page n (length all_datasets') count in
           if limit_hit max_results (length all_datasets')
           then Stop (Returned (slice_to all_datasets' (the max_results))) out
           else if int n < per_page then Stop (Returned all_datasets') out
           else Continue all_datasets' (out @ [Sleep]))))))))"

text \<open>
  The loop itself. It has no bound of its own: against a server that keeps
  sending full pages it never returns, which is the value \<open>None\<close> here.
\<close>

partial_function (option) fetch_loop ::
  "(int \<Rightarrow> nat \<Rightarrow> outcome) \<Rightarrow> int \<Rightarrow> int option \<Rightarrow> json list \<Rightarrow> nat \<Rightarrow> event list
    \<Rightarrow> (json list result \<times> event list) option" where
  "fetch_loop http_get per_page max_results all_datasets page out =
     (case fetch_page http_get per_page max_results all_datasets page of
        Stop r evs \<Rightarrow> Some (r, out @ evs)
      | Continue all_datasets' evs \<Rightarrow>
          fetch_loop http_get per_page max_results all_datasets' (Suc page) (out @ evs))"

declare fetch_loop.simps [code]

definition crick_ror :: string where
  "crick_ror = ''https://ror.org/029chgv08''"

definition banner :: "event list" where
  "banner =
     [Print [Lit ''Querying OpenAlex for datasets from Francis Crick Institute...''],
      Print [Lit ''ROR ID: '', Lit crick_ror, Lit [CHR 0x0A]]]"

definition get_crick_datasets ::
  "(int \<Rightarrow> nat \<Rightarrow> outcome) \<Rightarrow> int \<Rightarrow> int option \<Rightarrow> (json list result \<times> event list) option" where
  "get_crick_datasets http_get per_page max_results =
     fetch_loop http_get per_page max_results [] 1 banner"

section \<open>The text \<^verbatim>\<open>json.dump\<close> writes\<close>

text \<open>
  Modelled from the documentation and the source of the standard library's
  \<^verbatim>\<open>json.encoder\<close>, which is not part of the repository: the text that
  \<^verbatim>\<open>json.dump(obj, f, indent=2, ensure_ascii=False)\<close> produces. With
  \<^verbatim>\<open>ensure_ascii=False\<close> a string keeps its characters; only the quote, the
  backslash and the control characters below \<open>0x20\<close> are escaped.
\<close>

definition hexdigit :: "nat \<Rightarrow> nat" where
  "hexdigit d = (if d < 10 then 0x30 + d else 0x57 + d)"

definition escape :: "nat \<Rightarrow> pystr" where
  "escape c =
     (if c = 0x22 then [0x5C, 0x22]
      else if c = 0x5C then [0x5C, 0x5C]
      else if c = 0x0A then [0x5C, 0x6E]
      else if c = 0x0D then [0x5C, 0x72]
      else if c = 0x09 then [0x5C, 0x74]
      else if c = 0x08 then [0x5C, 0x62]
      else if c = 0x0C then [0x5C, 0x66]
      else if c < 0x20 then [0x5C, 0x75, 0x30, 0x30, hexdigit (c div 16), hexdigit (c mod 16)]
      else [c])"

definition dump_string :: "pystr \<Rightarrow> pystr" where
  "dump_string s = 0x22 # concat (map escape s) @ [0x22]"

text \<open>The decimal digits of a natural number, and \<^verbatim>\<open>int.__repr__\<close>.\<close>

fun dec :: "nat \<Rightarrow> pystr" where
  "dec n = (if n < 10 then [0x30 + n] else dec (n div 10) @ [0x30 + n mod 10])"

declare dec.simps [simp del]

definition dump_int :: "int \<Rightarrow> pystr" where
  "dump_int i = (if i < 0 then 0x2D # dec (nat (- i)) else dec (nat i))"

definition dump_float :: "pyfloat \<Rightarrow> pystr" where
  "dump_float f =
     (case f of
        NaN \<Rightarrow> py ''NaN''
      | PosInf \<Rightarrow> py ''Infinity''
      | NegInf \<Rightarrow> py ''-Infinity''
      | Finite m e r \<Rightarrow> r)"

text \<open>A line break followed by two spaces for each level of nesting.\<close>

definition newline_indent :: "nat \<Rightarrow> pystr" where
  "newline_indent level = 0x0A # replicate (2 * level) 0x20"

fun dump_value :: "nat \<Rightarrow> json \<Rightarrow> pystr"
  and dump_items :: "nat \<Rightarrow> json list \<Rightarrow> pystr"
  and dump_pairs :: "nat \<Rightarrow> (pystr \<times> json) list \<Rightarrow> pystr" where
  "dump_value level JNull = py ''null''"
| "dump_value level (JBool b) = (if b then py ''true'' else py ''false'')"
| "dump_value level (JInt i) = dump_int i"
| "dump_value level (JFloat f) = dump_float f"
| "dump_value level (JStr s) = dump_string s"
| "dump_value level (JArr xs) =
     (if xs = [] then py ''[]''
      else 0x5B # newline_indent (Suc level) @ dump_items (Suc level) xs
           @ newline_indent level @ [0x5D])"
| "dump_value level (JObj kvs) =
     (if kvs = [] then py ''{}''
      else 0x7B # newline_indent (Suc level) @ dump_pairs (Suc level) kvs
           @ newline_indent level @ [0x7D])"
| "dump_items level [] = []"
| "dump_items level (x # xs) =
     dump_value level x
     @ (if xs = [] then [] else 0x2C # newline_indent level @ dump_items level xs)"
| "dump_pairs level [] = []"
| "dump_pairs level (kv # kvs) =
     dump_string (fst kv) @ [0x3A, 0x20] @ dump_value level (snd kv)
     @ (if kvs = [] then [] else 0x2C # newline_indent level @ dump_pairs level kvs)"

definition json_dump :: "json list \<Rightarrow> pystr" where
  "json_dump datasets = dump_value 0 (JArr datasets)"

section \<open>The Persister and the Summarizer\<close>

text \<open>
  The world outside the program: the server behind \<^verbatim>\<open>requests.get\<close>, and what
  the operating system answers when a file is opened for writing and when a text
  is stored in it (\<open>None\<close>: the call completes).
\<close>

record env =
  http_get :: "int \<Rightarrow> nat \<Rightarrow> outcome"
  file_open :: "string \<Rightarrow> exn option"
  file_store :: "string \<Rightarrow> pystr \<Rightarrow> exn option"

text \<open>
  The \<^verbatim>\<open>with\<close> block of lines 79 and 80: \<^verbatim>\<open>open\<close> may raise; the text of
  \<^verbatim>\<open>json.dump\<close> goes through the UTF-8 encoder of the file, which raises on a
  lone surrogate; storing the encoded text may raise. Where the text cannot be
  encoded and storing it would fail as well, buffering decides which of the two
  exceptions is raised; the encoder's is taken here.
\<close>

definition fs_write :: "env \<Rightarrow> string \<Rightarrow> json list \<Rightarrow> exn option" where
  "fs_write w filename datasets =
     (case file_open w filename of
        Some e \<Rightarrow> Some e
      | None \<Rightarrow>
          if \<not> encodable (json_dump datasets) then Some UnicodeEncodeError
          else file_store w filename (json_dump datasets))"

definition save_datasets :: "env \<Rightarrow> json list \<Rightarrow> string \<Rightarrow> unit result \<times> event list" where
  "save_datasets w datasets filename =
     (case fs_write w filename datasets of
        Some e \<Rightarrow> (Raised e, [])
      | None \<Rightarrow>
          (Returned (),
           [WriteFile filename (json_dump datasets),
            Print [Lit (CHR 0x0A # ''Saved ''), Num (int (length datasets)),
                   Lit '' datasets to '', Lit filename]]))"

definition summary_header :: "nat \<Rightarrow> event list" where
  "summary_header n =
     [Print [Lit (CHR 0x0A # replicate 80 CHR ''='')],
      Print [Lit ''SUMMARY OF FRANCIS CRICK INSTITUTE DATASETS''],
      Print [Lit (replicate 80 CHR ''='')],
      Print [Lit (CHR 0x0A # ''Total datasets found: ''), Num (int n), Lit [CHR 0x0A]]]"

text \<open>The five \<^verbatim>\<open>print\<close> calls of one preview (lines 99 to 103).\<close>

definition preview_lines :: "nat \<Rightarrow> json \<Rightarrow> json \<Rightarrow> json \<Rightarrow> json \<Rightarrow> frag list list" where
  "preview_lines i title pub_year doi open_access =
     [[Num (int i), Lit ''. '', Val title],
      [Lit ''   Year: '', Val pub_year],
      [Lit ''   DOI: '', Val doi],
      [Lit ''   Open Access: '', Val open_access],
      []]"

text \<open>
  The body of the \<^verbatim>\<open>for\<close> loop for one record (lines 94 to 103): the four
  reads come first, so a read that raises leaves nothing printed for the record.
\<close>

definition preview :: "nat \<Rightarrow> json \<Rightarrow> event list \<Rightarrow> unit result \<times> event list" where
  "preview i dataset out =
     (case dict_get dataset (py ''title'') (JStr (py ''No title'')) of
        Inl e \<Rightarrow> (Raised e, out)
      | Inr title \<Rightarrow>
     (case dict_get dataset (py ''publication_year'') (JStr (py ''Unknown year'')) of
        Inl e \<Rightarrow> (Raised e, out)
      | Inr pub_year \<Rightarrow>
     (case dict_get dataset (py ''doi'') (JStr (py ''No DOI'')) of
        Inl e \<Rightarrow> (Raised e, out)
      | Inr doi \<Rightarrow>
     (case dict_get dataset (py ''open_access'') (JObj []) of
        Inl e \<Rightarrow> (Raised e, out)
      | Inr oa \<Rightarrow>
     (case dict_get oa (py ''is_oa'') (JBool False) of
        Inl e \<Rightarrow> (Raised e, out)
      | Inr open_access \<Rightarrow>
          print_all (preview_lines i title pub_year doi open_access) out)))))"

text \<open>\<^verbatim>\<open>for i, dataset in enumerate(datasets[:5], 1)\<close>, from index \<open>i\<close> on.\<close>

fun preview_loop :: "nat \<Rightarrow> json list \<Rightarrow> event list \<Rightarrow> unit result \<times> event list" where
  "preview_loop i [] out = (Returned (), out)"
| "preview_loop i (dataset # rest) out =
     (case preview i dataset out of
        (Raised e, out') \<Rightarrow> (Raised e, out')
      | (Returned u, out') \<Rightarrow> preview_loop (Suc i) rest out')"

definition print_summary :: "json list \<Rightarrow> unit result \<times> event list" where
  "print_summary datasets =
     (if datasets \<noteq> []
      then preview_loop 1 (take 5 datasets)
             (summary_header (length datasets)
              @ [Print [Lit ''Sample datasets (first 5):'', Lit [CHR 0x0A]]])
      else (Returned (), summary_header (length datasets)))"

section \<open>The entry point\<close>

text \<open>
  How the process ends: \<^verbatim>\<open>main\<close> returns and the interpreter exits with status
  0, or an exception escapes \<^verbatim>\<open>main\<close> and the interpreter prints a traceback and
  exits with status 1.
\<close>

datatype exit = Exit0 | Uncaught exn

fun exit_status :: "exit \<Rightarrow> nat" where
  "exit_status Exit0 = 0"
| "exit_status (Uncaught e) = 1"

text \<open>\<^verbatim>\<open>list(datasets[0].keys())\<close> (line 119); the caller has checked the list.\<close>

fun first_keys :: "json list \<Rightarrow> exn + pystr list" where
  "first_keys (JObj kvs # _) = Inr (map fst kvs)"
| "first_keys _ = Inl AttributeError"

definition default_filename :: string where
  "default_filename = ''crick_datasets.json''"

definition main :: "env \<Rightarrow> (exit \<times> event list) option" where
  "main w =
     (case get_crick_datasets (http_get w) 200 None of
        None \<Rightarrow> None
      | Some (Raised e, out) \<Rightarrow> Some (Uncaught e, out)
      | Some (Returned datasets, out) \<Rightarrow>
          if datasets \<noteq> [] then
            (case save_datasets w datasets default_filename of
               (Raised e, saved) \<Rightarrow> Some (Uncaught e, out @ saved)
             | (Returned _, saved) \<Rightarrow>
            (case print_summary datasets of
               (Raised e, summary) \<Rightarrow> Some (Uncaught e, out @ saved @ summary)
             | (Returned _, summary) \<Rightarrow>
            (let out' = out @ saved @ summary
                          @ [Print [Lit (CHR 0x0A # ''Dataset fields available:'')]] in
             case first_keys datasets of
               Inl e \<Rightarrow> Some (Uncaught e, out')
             | Inr keys \<Rightarrow> Some (Exit0, out' @ [Print [KeysDump keys]]))))
          else Some (Exit0, out @ [Print [Lit (CHR 0x0A # ''No datasets found or error occurred.'')]]))"

section \<open>A server with a fixed list of records\<close>

text \<open>
  Modelled from the spec: the mock API of the testable properties, which is not
  part of the repository. It holds \<open>k\<close> matching records and answers the request
  for page \<open>n\<close> with page size \<open>p\<close> by the \<open>n\<close>-th block of \<open>p\<close> records, in a body
  with the \<^verbatim>\<open>results\<close> array and a \<^verbatim>\<open>meta\<close> object carrying the total count.
\<close>

definition mock_page :: "json list \<Rightarrow> int \<Rightarrow> nat \<Rightarrow> json list" where
  "mock_page records per_page page =
     take (nat per_page) (drop ((page - 1) * nat per_page) records)"

definition api_body :: "json \<Rightarrow> json list \<Rightarrow> json" where
  "api_body count results =
     JObj [(py ''meta'', JObj [(py ''count'', count)]), (py ''results'', JArr results)]"

definition mock_api :: "json list \<Rightarrow> int \<Rightarrow> nat \<Rightarrow> outcome" where
  "mock_api records per_page page =
     Body (api_body (JInt (int (length records))) (mock_page records per_page page))"

section \<open>Reading the file back: \<^verbatim>\<open>json.load\<close>\<close>

text \<open>
  Modelled from the documentation and the source of the standard library's
  \<^verbatim>\<open>json.decoder\<close> and \<^verbatim>\<open>json.scanner\<close>, which are not part of the repository
  and which the program never calls: what \<^verbatim>\<open>json.load\<close> makes of a text.
  \<open>None\<close> stands for \<^verbatim>\<open>json.JSONDecodeError\<close>.
\<close>

definition is_ws :: "nat \<Rightarrow> bool" where
  "is_ws c = (c = 0x20 \<or> c = 0x09 \<or> c = 0x0A \<or> c = 0x0D)"

definition skip_ws :: "pystr \<Rightarrow> pystr" where
  "skip_ws t = dropWhile is_ws t"

definition is_digit :: "nat \<Rightarrow> bool" where
  "is_digit c = (0x30 \<le> c \<and> c \<le> 0x39)"

definition hexval :: "nat \<Rightarrow> nat option" where
  "hexval c =
     (if 0x30 \<le> c \<and> c \<le> 0x39 then Some (c - 0x30)
      else if 0x61 \<le> c \<and> c \<le> 0x66 then Some (c - 0x57)
      else if 0x41 \<le> c \<and> c \<le> 0x46 then Some (c - 0x37)
      else None)"

definition hex4 :: "pystr \<Rightarrow> nat option" where
  "hex4 t =
     (case map hexval (take 4 t) of
        [Some a, Some b, Some c, Some d] \<Rightarrow> Some (((a * 16 + b) * 16 + c) * 16 + d)
      | _ \<Rightarrow> None)"

text \<open>
  The character after a backslash, with the text that follows it. Two
  \<^verbatim>\<open>\uXXXX\<close> escapes that form a surrogate pair give one code point.
\<close>

definition unescape :: "pystr \<Rightarrow> (nat \<times> pystr) option" where
  "unescape t =
     (case t of
        [] \<Rightarrow> None
      | e # cs \<Rightarrow>
          if e = 0x75 then
            (case hex4 cs of
               None \<Rightarrow> None
             | Some u \<Rightarrow>
                 if 0xD800 \<le> u \<and> u \<le> 0xDBFF \<and> take 2 (drop 4 cs) = [0x5C, 0x75] then
                   (case hex4 (drop 6 cs) of
                      None \<Rightarrow> None
                    | Some u2 \<Rightarrow>
                        if 0xDC00 \<le> u2 \<and> u2 \<le> 0xDFFF
                        then Some (0x10000 + ((u - 0xD800) * 1024 + (u2 - 0xDC00)), drop 10 cs)
                        else Some (u, drop 4 cs))
                 else Some (u, drop 4 cs))
          else if e = 0x22 then Some (0x22, cs)
          else if e = 0x5C then Some (0x5C, cs)
          else if e = 0x2F then Some (0x2F, cs)
          else if e = 0x62 then Some (0x08, cs)
          else if e = 0x66 then Some (0x0C, cs)
          else if e = 0x6E then Some (0x0A, cs)
          else if e = 0x72 then Some (0x0D, cs)
          else if e = 0x74 then Some (0x09, cs)
          else None)"

text \<open>A string, from the character after the opening quote.\<close>

function scanstring :: "pystr \<Rightarrow> (pystr \<times> pystr) option" where
  "scanstring [] = None"
| "scanstring (c # cs) =
     (if c = 0x22 then Some ([], cs)
      else if c = 0x5C then
        (case unescape cs of
           None \<Rightarrow> None
         | Some (ch, rest) \<Rightarrow>
             (case scanstring rest of None \<Rightarrow> None | Some (s, r) \<Rightarrow> Some (ch # s, r)))
      else if c < 0x20 then None
      else (case scanstring cs of None \<Rightarrow> None | Some (s, r) \<Rightarrow> Some (c # s, r)))"
  by pat_completeness auto
termination
  by (relation "measure length") (auto simp: unescape_def split: list.splits option.splits if_splits)

text \<open>
  A number: an optional sign, the integer part, an optional fraction and an
  optional exponent. With neither fraction nor exponent it is an \<^verbatim>\<open>int\<close>;
  otherwise \<^verbatim>\<open>float\<close> converts the text, which is not modelled and is the
  parameter \<open>float_of\<close>.
\<close>

definition undec :: "pystr \<Rightarrow> nat" where
  "undec ds = foldl (\<lambda>a d. 10 * a + (d - 0x30)) 0 ds"

definition scan_sign :: "pystr \<Rightarrow> pystr \<times> pystr" where
  "scan_sign t = (case t of c # cs \<Rightarrow> if c = 0x2D then ([0x2D], cs) else ([], t) | [] \<Rightarrow> ([], t))"

definition scan_whole :: "pystr \<Rightarrow> (pystr \<times> pystr) option" where
  "scan_whole t =
     (case t of
        [] \<Rightarrow> None
      | c # cs \<Rightarrow>
          if \<not> is_digit c then None
          else if c = 0x30 then Some ([0x30], cs)
          else Some (takeWhile is_digit t, dropWhile is_digit t))"

definition scan_frac :: "pystr \<Rightarrow> pystr \<times> pystr" where
  "scan_frac t =
     (case t of
        p # d # ds \<Rightarrow>
          if p = 0x2E \<and> is_digit d
          then (p # takeWhile is_digit (d # ds), dropWhile is_digit (d # ds))
          else ([], t)
      | _ \<Rightarrow> ([], t))"

definition scan_exp_sign :: "pystr \<Rightarrow> pystr \<times> pystr" where
  "scan_exp_sign t =
     (case t of c # cs \<Rightarrow> if c = 0x2B \<or> c = 0x2D then ([c], cs) else ([], t) | [] \<Rightarrow> ([], t))"

definition scan_exp :: "pystr \<Rightarrow> pystr \<times> pystr" where
  "scan_exp t =
     (case t of
        [] \<Rightarrow> ([], t)
      | e # cs \<Rightarrow>
          if e \<noteq> 0x65 \<and> e \<noteq> 0x45 then ([], t)
          else
            (case scan_exp_sign cs of
               (sg, ds) \<Rightarrow>
                 if ds \<noteq> [] \<and> is_digit (hd ds)
                 then (e # sg @ takeWhile is_digit ds, dropWhile is_digit ds)
                 else ([], t)))"

definition scan_number :: "(pystr \<Rightarrow> pyfloat) \<Rightarrow> pystr \<Rightarrow> (json \<times> pystr) option" where
  "scan_number float_of t =
     (case scan_sign t of
        (sign, t1) \<Rightarrow>
          (case scan_whole t1 of
             None \<Rightarrow> None
           | Some (ipart, t2) \<Rightarrow>
               (case scan_frac t2 of
                  (fpart, t3) \<Rightarrow>
                    (case scan_exp t3 of
                       (epart, t4) \<Rightarrow>
                         if fpart = [] \<and> epart = []
                         then Some (JInt (if sign = [] then int (undec ipart)
                                          else - int (undec ipart)), t4)
                         else Some (JFloat (float_of (sign @ ipart @ fpart @ epart)), t4)))))"

text \<open>\<^verbatim>\<open>dict(pairs)\<close>: a repeated key keeps its place and takes the later value.\<close>

fun dict_set :: "pystr \<Rightarrow> json \<Rightarrow> (pystr \<times> json) list \<Rightarrow> (pystr \<times> json) list" where
  "dict_set k v [] = [(k, v)]"
| "dict_set k v (p # ps) = (if fst p = k then (k, v) # ps else p # dict_set k v ps)"

definition dict_of :: "(pystr \<times> json) list \<Rightarrow> (pystr \<times> json) list" where
  "dict_of pairs = foldl (\<lambda>d kv. dict_set (fst kv) (snd kv) d) [] pairs"

text \<open>
  The scanner. Its first argument after \<open>float_of\<close> bounds the number of nested
  calls; \<open>json_loads\<close> starts it with a bound that grows with the text.
  \<open>parse_items\<close> reads the elements of an array from the first one to the closing
  bracket, \<open>parse_pairs\<close> the members of an object from the quote of the first key
  to the closing brace.
\<close>

fun parse_value :: "(pystr \<Rightarrow> pyfloat) \<Rightarrow> nat \<Rightarrow> pystr \<Rightarrow> (json \<times> pystr) option"
  and parse_items :: "(pystr \<Rightarrow> pyfloat) \<Rightarrow> nat \<Rightarrow> pystr \<Rightarrow> (json list \<times> pystr) option"
  and parse_pairs :: "(pystr \<Rightarrow> pyfloat) \<Rightarrow> nat \<Rightarrow> pystr \<Rightarrow> ((pystr \<times> json) list \<times> pystr) option" where
  "parse_value fo 0 t = None"
| "parse_value fo (Suc n) t =
     (case t of
        [] \<Rightarrow> None
      | c # cs \<Rightarrow>
          if c = 0x22 then
            (case scanstring cs of None \<Rightarrow> None | Some (s, r) \<Rightarrow> Some (JStr s, r))
          else if c = 0x7B then
            (case skip_ws cs of
               [] \<Rightarrow> None
             | d # ds \<Rightarrow>
                 if d = 0x7D then Some (JObj [], ds)
                 else (case parse_pairs fo n (d # ds) of
                         None \<Rightarrow> None
                       | Some (pairs, r) \<Rightarrow> Some (JObj (dict_of pairs), r)))
          else if c = 0x5B then
            (case skip_ws cs of
               [] \<Rightarrow> None
             | d # ds \<Rightarrow>
                 if d = 0x5D then Some (JArr [], ds)
                 else (case parse_items fo n (d # ds) of
                         None \<Rightarrow> None
                       | Some (xs, r) \<Rightarrow> Some (JArr xs, r)))
          else if take 4 t = py ''null'' then Some (JNull, drop 4 t)
          else if take 4 t = py ''true'' then Some (JBool True, drop 4 t)
          else if take 5 t = py ''false'' then Some (JBool False, drop 5 t)
          else
            (case scan_number fo t of
               Some r \<Rightarrow> Some r
             | None \<Rightarrow>
                 if take 3 t = py ''NaN'' then Some (JFloat NaN, drop 3 t)
                 else if take 8 t = py ''Infinity'' then Some (JFloat PosInf, drop 8 t)
                 else if take 9 t = py ''-Infinity'' then Some (JFloat NegInf, drop 9 t)
                 else None))"
| "parse_items fo 0 t = None"
| "parse_items fo (Suc n) t =
     (case parse_value fo n t of
        None \<Rightarrow> None
      | Some (x, r) \<Rightarrow>
          (case skip_ws r of
             [] \<Rightarrow> None
           | d # ds \<Rightarrow>
               if d = 0x5D then Some ([x], ds)
               else if d = 0x2C then
                 (case parse_items fo n (skip_ws ds) of
                    None \<Rightarrow> None
                  | Some (xs, r') \<Rightarrow> Some (x # xs, r'))
               else None))"
| "parse_pairs fo 0 t = None"
| "parse_pairs fo (Suc n) t =
     (case t of
        [] \<Rightarrow> None
      | q # cs \<Rightarrow>
          if q \<noteq> 0x22 then None
          else
            (case scanstring cs of
               None \<Rightarrow> None
             | Some (k, r) \<Rightarrow>
                 (case skip_ws r of
                    [] \<Rightarrow> None
                  | c # r2 \<Rightarrow>
                      if c \<noteq> 0x3A then None
                      else
                        (case parse_value fo n (skip_ws r2) of
                           None \<Rightarrow> None
                         | Some (v, r3) \<Rightarrow>
                             (case skip_ws r3 of
                                [] \<Rightarrow> None
                              | d # ds \<Rightarrow>
                                  if d = 0x7D then Some ([(k, v)], ds)
                                  else if d = 0x2C then
                                    (case parse_pairs fo n (skip_ws ds) of
                                       None \<Rightarrow> None
                                     | Some (pairs, r') \<Rightarrow> Some ((k, v) # pairs, r'))
                                  else None)))))"

definition json_loads :: "(pystr \<Rightarrow> pyfloat) \<Rightarrow> pystr \<Rightarrow> json option" where
  "json_loads float_of text =
     (case parse_value float_of (2 * length text + 1) (skip_ws text) of
        None \<Rightarrow> None
      | Some (v, r) \<Rightarrow> if skip_ws r = [] then Some v else None)"

section \<open>Quantities the properties speak of\<close>

text \<open>\<^verbatim>\<open>max_results or \<close>\<open>\<infinity>\<close>: no limit when the argument is \<^verbatim>\<open>None\<close> or \<open>0\<close>.\<close>

definition max_or_inf :: "int option \<Rightarrow> enat" where
  "max_or_inf max_results =
     (case max_results of
        None \<Rightarrow> \<infinity>
      | Some m \<Rightarrow> if m = 0 then \<infinity> else enat (nat m))"

text \<open>
  The records that arrived, in arrival order: the pages of the server named by the
  requests of a run, one after the other.
\<close>

definition arrived :: "json list \<Rightarrow> (int \<times> nat) list \<Rightarrow> json list" where
  "arrived records reqs = concat (map (\<lambda>(per_page, page). mock_page records per_page page) reqs)"

text \<open>
  Closed forms for a run against the server above: how many records come back and
  how many pages are asked for, when the list holds \<open>k\<close> records.
\<close>

definition returned_count :: "nat \<Rightarrow> int option \<Rightarrow> nat" where
  "returned_count k max_results = (if limit_hit max_results k then nat (the max_results) else k)"

definition pages_requested :: "nat \<Rightarrow> int \<Rightarrow> int option \<Rightarrow> nat" where
  "pages_requested k per_page max_results =
     (if limit_hit max_results k
      then (nat (the max_results) + nat per_page - 1) div nat per_page
      else k div nat per_page + 1)"

text \<open>
  A server whose first \<open>n\<close> pages let the loop go on: page \<open>j\<close> carries the
  non-empty list \<open>results j\<close> of at least \<open>per_page\<close> records and a count that can
  be printed. \<open>collected results n\<close> is what the Fetcher has accumulated after
  those pages.
\<close>

definition full_pages ::
  "(int \<Rightarrow> nat \<Rightarrow> outcome) \<Rightarrow> int \<Rightarrow> nat \<Rightarrow> (nat \<Rightarrow> json) \<Rightarrow> (nat \<Rightarrow> json list) \<Rightarrow> bool" where
  "full_pages http per_page n count results =
     (\<forall>j \<in> set [1..<Suc n].
        http per_page j = Body (api_body (count j) (results j)) \<and>
        printable (Val (count j)) \<and>
        results j \<noteq> [] \<and> per_page \<le> int (length (results j)))"

definition collected :: "(nat \<Rightarrow> json list) \<Rightarrow> nat \<Rightarrow> json list" where
  "collected results n = concat (map results [1..<Suc n])"

text \<open>
  A record whose fields \<^verbatim>\<open>print_summary\<close> can read: a dictionary whose
  \<^verbatim>\<open>open_access\<close> entry, when there is one, is a dictionary too.
\<close>

fun previewable :: "json \<Rightarrow> bool" where
  "previewable (JObj kvs) =
     (case map_of kvs (py ''open_access'') of
        None \<Rightarrow> True
      | Some (JObj oa) \<Rightarrow> True
      | Some _ \<Rightarrow> False)"
| "previewable _ = False"

text \<open>The value under a key, or the fallback when the key is missing.\<close>

definition get_or :: "(pystr \<times> json) list \<Rightarrow> pystr \<Rightarrow> json \<Rightarrow> json" where
  "get_or kvs key dflt = (case map_of kvs key of None \<Rightarrow> dflt | Some v \<Rightarrow> v)"

text \<open>
  The open-access flag of a record: \<^verbatim>\<open>False\<close> when the record has no
  \<^verbatim>\<open>open_access\<close> entry or the entry has no \<^verbatim>\<open>is_oa\<close>.
\<close>

definition flag_or_false :: "(pystr \<times> json) list \<Rightarrow> json" where
  "flag_or_false kvs =
     (case map_of kvs (py ''open_access'') of
        Some (JObj oa) \<Rightarrow> get_or oa (py ''is_oa'') (JBool False)
      | _ \<Rightarrow> JBool False)"

text \<open>
  A record that \<^verbatim>\<open>print_summary\<close> can preview on a UTF-8 terminal: its fields
  can be read, and the four values it prints can be encoded.
\<close>

fun showable :: "json \<Rightarrow> bool" where
  "showable (JObj kvs) =
     (previewable (JObj kvs)
      \<and> printable (Val (get_or kvs (py ''title'') (JStr (py ''No title''))))
      \<and> printable (Val (get_or kvs (py ''publication_year'') (JStr (py ''Unknown year''))))
      \<and> printable (Val (get_or kvs (py ''doi'') (JStr (py ''No DOI''))))
      \<and> printable (Val (flag_or_false kvs)))"
| "showable _ = False"

text \<open>
  A value without lone surrogates: every string, key and float text in it can be
  encoded.
\<close>

fun clean :: "json \<Rightarrow> bool"
  and clean_items :: "json list \<Rightarrow> bool"
  and clean_pairs :: "(pystr \<times> json) list \<Rightarrow> bool" where
  "clean (JStr s) = encodable s"
| "clean (JFloat (Finite m e r)) = encodable r"
| "clean (JArr xs) = clean_items xs"
| "clean (JObj kvs) = clean_pairs kvs"
| "clean JNull = True"
| "clean (JBool b) = True"
| "clean (JInt i) = True"
| "clean (JFloat PosInf) = True"
| "clean (JFloat NegInf) = True"
| "clean (JFloat NaN) = True"
| "clean_items [] = True"
| "clean_items (x # xs) = (clean x \<and> clean_items xs)"
| "clean_pairs [] = True"
| "clean_pairs (kv # kvs) = (encodable (fst kv) \<and> clean (snd kv) \<and> clean_pairs kvs)"

text \<open>
  A text that the number scanner reads to its end as a float: an integer part
  followed by a fraction, an exponent or both, as \<^verbatim>\<open>float.__repr__\<close> writes a
  finite float.
\<close>

definition float_text :: "pystr \<Rightarrow> bool" where
  "float_text r =
     (case scan_sign r of
        (sign, t1) \<Rightarrow>
          (case scan_whole t1 of
             None \<Rightarrow> False
           | Some (ipart, t2) \<Rightarrow>
               (case scan_frac t2 of
                  (fpart, t3) \<Rightarrow>
                    (case scan_exp t3 of
                       (epart, t4) \<Rightarrow> t4 = [] \<and> (fpart \<noteq> [] \<or> epart \<noteq> [])))))"

text \<open>
  A float that comes back from its text: an infinity, or a finite float whose text
  is a float text that \<^verbatim>\<open>float\<close> converts to the same float. CPython promises
  \<^verbatim>\<open>float(repr(x)) == x\<close> for every finite float; the conversion is not modelled
  and the promise is asked of the parameter. A \<^verbatim>\<open>nan\<close> is left out: it is equal
  to nothing, itself included.
\<close>

fun float_ok :: "(pystr \<Rightarrow> pyfloat) \<Rightarrow> pyfloat \<Rightarrow> bool" where
  "float_ok float_of (Finite m e r) = (float_text r \<and> float_of r = Finite m e r)"
| "float_ok float_of PosInf = True"
| "float_ok float_of NegInf = True"
| "float_ok float_of NaN = False"

text \<open>
  A value as \<^verbatim>\<open>json.load\<close> builds it and that compares equal to itself:
  \<^verbatim>\<open>None\<close>, booleans, integers, floats as above, strings, lists, and dictionaries
  whose keys are distinct.
\<close>

fun plain :: "(pystr \<Rightarrow> pyfloat) \<Rightarrow> json \<Rightarrow> bool"
  and plain_items :: "(pystr \<Rightarrow> pyfloat) \<Rightarrow> json list \<Rightarrow> bool"
  and plain_pairs :: "(pystr \<Rightarrow> pyfloat) \<Rightarrow> (pystr \<times> json) list \<Rightarrow> bool" where
  "plain fo (JFloat f) = float_ok fo f"
| "plain fo (JArr xs) = plain_items fo xs"
| "plain fo (JObj kvs) = (distinct (map fst kvs) \<and> plain_pairs fo kvs)"
| "plain fo JNull = True"
| "plain fo (JBool b) = True"
| "plain fo (JInt i) = True"
| "plain fo (JStr s) = True"
| "plain_items fo [] = True"
| "plain_items fo (x # xs) = (plain fo x \<and> plain_items fo xs)"
| "plain_pairs fo [] = True"
| "plain_pairs fo (kv # kvs) = (plain fo (snd kv) \<and> plain_pairs fo kvs)"

text \<open>A character that \<^verbatim>\<open>json.dump\<close> writes as it is.\<close>

definition unescaped :: "nat \<Rightarrow> bool" where
  "unescaped c = (0x20 \<le> c \<and> c \<noteq> 0x22 \<and> c \<noteq> 0x5C)"

text \<open>
  Where a number ends, where a value starts, and what may follow a value inside
  the text \<^verbatim>\<open>json.dump\<close> writes.
\<close>

definition number_end :: "pystr \<Rightarrow> bool" where
  "number_end rest =
     (rest = [] \<or> (\<not> is_digit (hd rest) \<and> hd rest \<noteq> 0x2E \<and> hd rest \<noteq> 0x65 \<and> hd rest \<noteq> 0x45))"

definition value_start :: "nat \<Rightarrow> bool" where
  "value_start c = (c = 0x22 \<or> c = 0x7B \<or> c = 0x5B \<or> c = 0x6E \<or> c = 0x74 \<or> c = 0x66
                     \<or> c = 0x2D \<or> c = 0x49 \<or> is_digit c)"

definition delimited :: "pystr \<Rightarrow> bool" where
  "delimited rest =
     (case rest of [] \<Rightarrow> True | c # cs \<Rightarrow> c = 0x2C \<or> c = 0x5D \<or> c = 0x7D \<or> is_ws c)"

section \<open>Concrete inputs\<close>

text \<open>A list of \<open>n\<close> distinct records, numbered from 0.\<close>

definition sample_records :: "nat \<Rightarrow> json list" where
  "sample_records n = map (\<lambda>i. JObj [(py ''id'', JInt (int i))]) [0..<n]"

text \<open>A server that answers like \<open>http\<close> up to page \<open>n\<close> and with \<open>bad\<close> afterwards.\<close>

definition failing_after ::
  "nat \<Rightarrow> outcome \<Rightarrow> (int \<Rightarrow> nat \<Rightarrow> outcome) \<Rightarrow> int \<Rightarrow> nat \<Rightarrow> outcome" where
  "failing_after n bad http per_page page = (if page \<le> n then http per_page page else bad)"

text \<open>
  A file system where every file opens and every text is stored, and one where
  opening a file raises.
\<close>

definition open_ok :: "string \<Rightarrow> exn option" where
  "open_ok filename = None"

definition store_ok :: "string \<Rightarrow> pystr \<Rightarrow> exn option" where
  "store_ok filename text = None"


text \<open>
  The server of the spec's scenario, 450 records in pages of 200, with the request
  for page 2 raising \<open>e\<close>; every write completes.
\<close>

definition error_on_page_2 :: "exn \<Rightarrow> env" where
  "error_on_page_2 e =
     \<lparr>http_get = failing_after 1 (Raises e) (mock_api (sample_records 450)),
      file_open = open_ok, file_store = store_ok\<rparr>"


definition all_well :: env where
  "all_well =
     \<lparr>http_get = mock_api (sample_records 3), file_open = open_ok, file_store = store_ok\<rparr>"

text \<open>
  A record with non-ASCII text and a float, a conversion that reads the text of
  that float, and a record whose title is the lone surrogate that the JSON text
  \<^verbatim>\<open>"\ud800"\<close> parses to.
\<close>

definition unicode_record :: json where
  "unicode_record =
     JObj [(py ''title'', JStr [0x43, 0xE9, 0x3B1, 0x1F600]),
           (py ''cited_by_count'', JInt (- 12)),
           (py ''fwci'', JFloat (Finite 3 (- 1) (py ''1.5''))),
           (py ''tags'', JArr [JNull, JBool True])]"

definition read_float :: "pystr \<Rightarrow> pyfloat" where
  "read_float t = (if t = py ''1.5'' then Finite 3 (- 1) (py ''1.5'') else NaN)"

definition surrogate_record :: json where
  "surrogate_record = JObj [(py ''title'', JStr [0xD800])]"

text \<open>A record with a title and an empty \<^verbatim>\<open>open_access\<close>, and nothing else.\<close>

definition sparse_record :: json where
  "sparse_record = JObj [(py ''title'', JStr (py ''Crick'')), (py ''open_access'', JObj [])]"

section \<open>Facts about strings and printing\<close>

lemma py_eq_iff [simp]: "py a = py b \<longleftrightarrow> a = b"
  by (simp add: py_def inj_map_eq_map[OF inj_of_char])

lemma py_Nil [simp]: "py [] = []"
  by (simp add: py_def)

lemma py_Cons: "py (c # cs) = of_char c # py cs"
  by (simp add: py_def)

lemma encodable_py [simp]: "encodable (py s)"
proof -
  have "\<not> is_surrogate (of_char c)" for c :: char
  proof -
    have "(of_char c :: nat) < 256" by simp
    then show ?thesis unfolding is_surrogate_def by linarith
  qed
  then show ?thesis by (simp add: encodable_def py_def list_all_iff)
qed

lemma encodable_append [simp]: "encodable (a @ b) \<longleftrightarrow> encodable a \<and> encodable b"
  by (simp add: encodable_def)

lemma encodable_Cons: "encodable (c # cs) \<longleftrightarrow> \<not> is_surrogate c \<and> encodable cs"
  by (simp add: encodable_def)

lemma encodable_Nil [simp]: "encodable []"
  by (simp add: encodable_def)

lemma print_all_append:
  "print_all (a @ b) out =
     (case print_all a out of
        (Raised e, out') \<Rightarrow> (Raised e, out')
      | (Returned u, out') \<Rightarrow> print_all b out')"
  by (induction a arbitrary: out) simp_all

lemma print_all_printable:
  "list_all (list_all printable) lines \<Longrightarrow>
     print_all lines out = (Returned (), out @ map Print lines)"
  by (induction lines arbitrary: out) simp_all

section \<open>Facts about one page and about the loop\<close>

lemma requests_of_append: "requests_of (a @ b) = requests_of a @ requests_of b"
  by (induction a rule: requests_of.induct) simp_all

lemma requests_of_page_report: "requests_of (page_report page n t c) = []"
  by (simp add: page_report_def)

lemma limit_hit_mono: "limit_hit m a \<Longrightarrow> a \<le> b \<Longrightarrow> limit_hit m b"
  by (auto simp: limit_hit_def split: option.splits)

lemma fetch_page_body:
  assumes "g p page = Body (api_body c rs)" and "printable (Val c)"
  shows "fetch_page g p m acc page =
    (if rs = [] then Stop (Returned acc) [Get p page]
     else if limit_hit m (length (acc @ rs))
       then Stop (Returned (slice_to (acc @ rs) (the m)))
              (Get p page # page_report page (length rs) (length (acc @ rs)) c)
     else if int (length rs) < p
       then Stop (Returned (acc @ rs))
              (Get p page # page_report page (length rs) (length (acc @ rs)) c)
     else Continue (acc @ rs)
            (Get p page # page_report page (length rs) (length (acc @ rs)) c @ [Sleep]))"
  using assms by (simp add: fetch_page_def api_body_def Let_def)

lemma fetch_page_raises:
  assumes "g p page = Raises e"
  shows "fetch_page g p m acc page = handle e acc [Get p page]"
  using assms by (simp add: fetch_page_def)

lemma fetch_loop_stop:
  "fetch_page g p m acc page = Stop r evs \<Longrightarrow> fetch_loop g p m acc page out = Some (r, out @ evs)"
  by (subst fetch_loop.simps) simp

lemma fetch_loop_continue:
  "fetch_page g p m acc page = Continue acc' evs \<Longrightarrow>
   fetch_loop g p m acc page out = fetch_loop g p m acc' (Suc page) (out @ evs)"
  by (subst fetch_loop.simps) simp

lemma fetch_page_mock:
  "fetch_page (mock_api rs) p m acc page =
    (if mock_page rs p page = [] then Stop (Returned acc) [Get p page]
     else if limit_hit m (length (acc @ mock_page rs p page))
       then Stop (Returned (slice_to (acc @ mock_page rs p page) (the m)))
              (Get p page # page_report page (length (mock_page rs p page))
                 (length (acc @ mock_page rs p page)) (JInt (int (length rs))))
     else if int (length (mock_page rs p page)) < p
       then Stop (Returned (acc @ mock_page rs p page))
              (Get p page # page_report page (length (mock_page rs p page))
                 (length (acc @ mock_page rs p page)) (JInt (int (length rs))))
     else Continue (acc @ mock_page rs p page)
            (Get p page # page_report page (length (mock_page rs p page))
                 (length (acc @ mock_page rs p page)) (JInt (int (length rs))) @ [Sleep]))"
  by (rule fetch_page_body) (simp_all add: mock_api_def)

lemma mock_page_Suc: "mock_page rs p (Suc j) = take (nat p) (drop (j * nat p) rs)"
  by (simp add: mock_page_def)

lemma take_mock_page: "take (j * nat p) rs @ mock_page rs p (Suc j) = take (Suc j * nat p) rs"
proof -
  have "Suc j * nat p = j * nat p + nat p" by simp
  then show ?thesis by (simp only: take_add mock_page_Suc)
qed

lemma mock_unlimited:
  assumes p: "1 \<le> p" and nolimit: "\<not> limit_hit m (length rs)"
  shows "j + n = length rs div nat p \<Longrightarrow>
    \<exists>evs. fetch_loop (mock_api rs) p m (take (j * nat p) rs) (Suc j) out
             = Some (Returned rs, out @ evs)
         \<and> requests_of evs = map (Pair p) [Suc j ..< length rs div nat p + 2]"
proof (induction n arbitrary: j out)
  case 0
  let ?P = "nat p"
  let ?pg = "mock_page rs p (Suc j)"
  have P: "0 < ?P" using p by simp
  have j: "j = length rs div ?P" using 0 by simp
  have le: "j * ?P \<le> length rs" using j by simp
  have gt: "length rs < Suc j * ?P" using j P
    by (metis dividend_less_div_times mult.commute mult_Suc)
  have all: "take (j * ?P) rs @ ?pg = rs" using gt by (simp add: take_mock_page)
  have "length ?pg < ?P" using gt le by (simp add: mock_page_Suc)
  then have short: "int (length ?pg) < p" using p by linarith
  have emp: "?pg = [] \<Longrightarrow> take (j * ?P) rs = rs" using all by simp
  have "\<exists>evs. fetch_page (mock_api rs) p m (take (j * ?P) rs) (Suc j) = Stop (Returned rs) evs
          \<and> requests_of evs = [(p, Suc j)]"
    using nolimit short emp all
    by (cases "?pg = []") (simp_all add: fetch_page_mock requests_of_page_report)
  then obtain evs where
    st: "fetch_page (mock_api rs) p m (take (j * ?P) rs) (Suc j) = Stop (Returned rs) evs"
    and rq: "requests_of evs = [(p, Suc j)]" by blast
  show ?case using fetch_loop_stop[OF st] rq j by simp
next
  case (Suc n)
  let ?P = "nat p"
  let ?pg = "mock_page rs p (Suc j)"
  have P: "0 < ?P" using p by simp
  have "Suc j \<le> length rs div ?P" using Suc.prems by simp
  then have le: "Suc j * ?P \<le> length rs" using P by (simp add: less_eq_div_iff_mult_less_eq)
  have len: "length ?pg = ?P" using le by (simp add: mock_page_Suc) 
  have ne: "?pg \<noteq> []" using len P by auto
  have acc: "take (j * ?P) rs @ ?pg = take (Suc j * ?P) rs" by (rule take_mock_page)
  have nl: "\<not> limit_hit m (length (take (Suc j * ?P) rs))"
    using nolimit limit_hit_mono[of m "length (take (Suc j * ?P) rs)" "length rs"] by auto
  have "\<exists>evs. fetch_page (mock_api rs) p m (take (j * ?P) rs) (Suc j)
        = Continue (take (Suc j * ?P) rs) evs \<and> requests_of evs = [(p, Suc j)]"
    using nl ne len p acc
    by (simp add: fetch_page_mock requests_of_page_report requests_of_append)
  then obtain evs where st: "fetch_page (mock_api rs) p m (take (j * ?P) rs) (Suc j)
        = Continue (take (Suc j * ?P) rs) evs"
    and rq: "requests_of evs = [(p, Suc j)]" by blast
  have "Suc j + n = length rs div ?P" using Suc.prems by simp
  from Suc.IH[OF this, of "out @ evs"] obtain evs' where
    run: "fetch_loop (mock_api rs) p m (take (Suc j * ?P) rs) (Suc (Suc j)) (out @ evs)
           = Some (Returned rs, (out @ evs) @ evs')"
    and rq': "requests_of evs' = map (Pair p) [Suc (Suc j) ..< length rs div ?P + 2]"
    by blast
  have lt: "Suc j < length rs div ?P + 2" using Suc.prems by simp
  show ?case
    using fetch_loop_continue[OF st, of out] run rq rq' lt
    by (intro exI[of _ "evs @ evs'"]) (simp add: requests_of_append upt_conv_Cons)
qed


lemma mock_limited:
  assumes p: "1 \<le> p" and m: "1 \<le> m" and mk: "nat m \<le> length rs"
    and lo: "(N - 1) * nat p < nat m" and hi: "nat m \<le> N * nat p"
  shows "Suc (j + n) = N \<Longrightarrow>
    \<exists>evs. fetch_loop (mock_api rs) p (Some m) (take (j * nat p) rs) (Suc j) out
             = Some (Returned (take (nat m) rs), out @ evs)
         \<and> requests_of evs = map (Pair p) [Suc j ..< Suc N]"
proof (induction n arbitrary: j out)
  case 0
  let ?P = "nat p"
  let ?pg = "mock_page rs p (Suc j)"
  have P: "0 < ?P" using p by simp
  have N: "N = Suc j" using 0 by simp
  have "j * ?P < length rs" using lo mk N by simp
  then have ne: "?pg \<noteq> []" using P by (simp add: mock_page_Suc)
  have acc: "take (j * ?P) rs @ ?pg = take (N * ?P) rs" unfolding N by (rule take_mock_page)
  have hit: "limit_hit (Some m) (length (take (N * ?P) rs))"
    using m mk hi by (simp add: limit_hit_def)
  have sl: "slice_to (take (N * ?P) rs) m = take (nat m) rs"
    using m hi by (simp add: slice_to_def min_def)
  have "\<exists>evs. fetch_page (mock_api rs) p (Some m) (take (j * ?P) rs) (Suc j)
           = Stop (Returned (take (nat m) rs)) evs \<and> requests_of evs = [(p, Suc j)]"
    using ne acc hit sl by (simp add: fetch_page_mock requests_of_page_report)
  then obtain evs where
    st: "fetch_page (mock_api rs) p (Some m) (take (j * ?P) rs) (Suc j)
           = Stop (Returned (take (nat m) rs)) evs"
    and rq: "requests_of evs = [(p, Suc j)]" by blast
  show ?case using fetch_loop_stop[OF st] rq N by simp
next
  case (Suc n)
  let ?P = "nat p"
  let ?pg = "mock_page rs p (Suc j)"
  have P: "0 < ?P" using p by simp
  have "Suc j \<le> N - 1" using Suc.prems by simp
  then have "Suc j * ?P \<le> (N - 1) * ?P" by (rule mult_le_mono1)
  then have lt: "Suc j * ?P < nat m" using lo by simp
  then have le: "Suc j * ?P \<le> length rs" using mk by simp
  have len: "length ?pg = ?P" using le by (simp add: mock_page_Suc)
  have ne: "?pg \<noteq> []" using len P by auto
  have acc: "take (j * ?P) rs @ ?pg = take (Suc j * ?P) rs" by (rule take_mock_page)
  have "int (Suc j * ?P) < m" using lt by (simp only: zless_nat_eq_int_zless)
  moreover have "length (take (Suc j * ?P) rs) = Suc j * ?P" using le by simp
  ultimately have nl: "\<not> limit_hit (Some m) (length (take (Suc j * ?P) rs))"
    by (simp only: limit_hit_def option.case) simp
  have "\<exists>evs. fetch_page (mock_api rs) p (Some m) (take (j * ?P) rs) (Suc j)
        = Continue (take (Suc j * ?P) rs) evs \<and> requests_of evs = [(p, Suc j)]"
    using nl ne len p acc
    by (simp add: fetch_page_mock requests_of_page_report requests_of_append)
  then obtain evs where st: "fetch_page (mock_api rs) p (Some m) (take (j * ?P) rs) (Suc j)
        = Continue (take (Suc j * ?P) rs) evs"
    and rq: "requests_of evs = [(p, Suc j)]" by blast
  have "Suc (Suc j + n) = N" using Suc.prems by simp
  from Suc.IH[OF this, of "out @ evs"] obtain evs' where
    run: "fetch_loop (mock_api rs) p (Some m) (take (Suc j * ?P) rs) (Suc (Suc j)) (out @ evs)
           = Some (Returned (take (nat m) rs), (out @ evs) @ evs')"
    and rq': "requests_of evs' = map (Pair p) [Suc (Suc j) ..< Suc N]"
    by blast
  have lt: "Suc j < Suc N" using Suc.prems by simp
  show ?case
    using fetch_loop_continue[OF st, of out] run rq rq' lt
    by (intro exI[of _ "evs @ evs'"]) (simp add: requests_of_append upt_conv_Cons)
qed

lemma ceil_div_bounds:
  fixes M P :: nat
  assumes "0 < P" and "0 < M"
  shows "((M + P - 1) div P - 1) * P < M" and "M \<le> (M + P - 1) div P * P"
    and "0 < (M + P - 1) div P"
proof -
  let ?a = "M + P - 1"
  have d: "?a div P * P + ?a mod P = ?a" by (rule div_mult_mod_eq)
  have r: "?a mod P < P" using assms by simp
  show "M \<le> ?a div P * P" using d r assms by linarith
  have "P \<le> ?a" using assms by simp
  then show pos: "0 < ?a div P" using assms by (simp add: div_greater_zero_iff)
  have "(?a div P - 1) * P = ?a div P * P - P" by (simp add: diff_mult_distrib)
  then show "(?a div P - 1) * P < M" using d assms by linarith
qed

lemma fetch_page_limit_zero: "fetch_page g p (Some 0) acc page = fetch_page g p None acc page"
  by (simp add: fetch_page_def limit_hit_def Let_def split: outcome.split sum.split)

lemma fetch_loop_limit_zero_aux:
  assumes run: "fetch_loop g p m acc page out = Some y"
  shows "(m = Some 0 \<longrightarrow> fetch_loop g p None acc page out = Some y) \<and>
         (m = None \<longrightarrow> fetch_loop g p (Some 0) acc page out = Some y)"
proof (rule fetch_loop.raw_induct
    [where P = "\<lambda>g p m acc page out y.
       (m = Some 0 \<longrightarrow> fetch_loop g p None acc page out = Some y) \<and>
       (m = None \<longrightarrow> fetch_loop g p (Some 0) acc page out = Some y)", OF _ run])
  fix f g p m acc page out y
  assume IH: "\<And>g p m acc page out y. f g p m acc page out = Some y \<Longrightarrow>
       (m = Some 0 \<longrightarrow> fetch_loop g p None acc page out = Some y) \<and>
       (m = None \<longrightarrow> fetch_loop g p (Some 0) acc page out = Some y)"
    and step: "(case fetch_page g p m acc page of
                  Stop r evs \<Rightarrow> Some (r, out @ evs)
                | Continue acc' evs \<Rightarrow> f g p m acc' (Suc page) (out @ evs)) = Some y"
  show "(m = Some 0 \<longrightarrow> fetch_loop g p None acc page out = Some y) \<and>
        (m = None \<longrightarrow> fetch_loop g p (Some 0) acc page out = Some y)"
  proof (cases "fetch_page g p m acc page")
    case (Stop r evs)
    then show ?thesis
      using step by (auto simp: fetch_loop_stop fetch_page_limit_zero)
  next
    case (Continue acc' evs)
    then have "f g p m acc' (Suc page) (out @ evs) = Some y" using step by simp
    from IH[OF this] Continue show ?thesis
      by (auto simp: fetch_loop_continue fetch_page_limit_zero)
  qed
qed

lemma fetch_loop_limit_zero:
  "fetch_loop g p (Some 0) acc page out = fetch_loop g p None acc page out"
proof (cases "fetch_loop g p (Some 0) acc page out")
  case None
  show ?thesis
  proof (cases "fetch_loop g p None acc page out")
    case None
    with \<open>fetch_loop g p (Some 0) acc page out = None\<close> show ?thesis by simp
  next
    case (Some y)
    from fetch_loop_limit_zero_aux[OF this] None show ?thesis by simp
  qed
next
  case (Some y)
  from fetch_loop_limit_zero_aux[OF this] Some show ?thesis by simp
qed

lemma requests_of_banner: "requests_of banner = []"
  by (simp add: banner_def)

lemma arrived_pages:
  "arrived rs (map (Pair p) [Suc 0 ..< Suc n]) = take (n * nat p) rs"
proof (induction n)
  case 0
  show ?case by (simp add: arrived_def)
next
  case (Suc n)
  have "arrived rs (map (Pair p) [Suc 0 ..< Suc (Suc n)])
      = arrived rs (map (Pair p) [Suc 0 ..< Suc n]) @ mock_page rs p (Suc n)"
    by (simp add: arrived_def)
  then show ?case using Suc.IH by (simp only: take_mock_page)
qed

lemma mock_run:
  assumes p: "1 \<le> p" and m: "\<forall>n. m = Some n \<longrightarrow> 0 \<le> n"
  shows "\<exists>evs. get_crick_datasets (mock_api rs) p m
             = Some (Returned (take (returned_count (length rs) m) rs), banner @ evs)
         \<and> requests_of evs = map (Pair p) [Suc 0 ..< Suc (pages_requested (length rs) p m)]"
proof (cases "limit_hit m (length rs)")
  case False
  have "0 + length rs div nat p = length rs div nat p" by simp
  from mock_unlimited[OF p False this, of banner] False show ?thesis
    by (simp add: get_crick_datasets_def returned_count_def pages_requested_def)
next
  case True
  then obtain n where n: "m = Some n" "n \<noteq> 0" "n \<le> int (length rs)"
    by (auto simp: limit_hit_def split: option.splits)
  then have n1: "1 \<le> n" and nk: "nat n \<le> length rs" using m by auto
  let ?N = "(nat n + nat p - 1) div nat p"
  have P: "0 < nat p" and M: "0 < nat n" using p n1 by simp_all
  note b = ceil_div_bounds[OF P M]
  from b(3) have "Suc (0 + (?N - 1)) = ?N" by simp
  from mock_limited[OF p n1 nk b(1) b(2) this, of banner] True n show ?thesis
    by (simp add: get_crick_datasets_def returned_count_def pages_requested_def)
qed

lemma returned_le_arrived:
  assumes p: "1 \<le> p" and m: "\<forall>n. m = Some n \<longrightarrow> 0 \<le> n"
  shows "returned_count k m \<le> pages_requested k p m * nat p"
proof (cases "limit_hit m k")
  case False
  have "0 < nat p" using p by simp
  then have "k < nat p + k div nat p * nat p" by (rule dividend_less_div_times)
  then have "k < (k div nat p + 1) * nat p" by simp
  with False show ?thesis by (simp add: returned_count_def pages_requested_def)
next
  case True
  then obtain n where n: "m = Some n" "n \<noteq> 0" "n \<le> int k"
    by (auto simp: limit_hit_def split: option.splits)
  then have n1: "1 \<le> n" using m by auto
  have P: "0 < nat p" and M: "0 < nat n" using p n1 by simp_all
  from ceil_div_bounds(2)[OF P M] True n show ?thesis
    by (simp add: returned_count_def pages_requested_def)
qed

lemma returned_count_min:
  assumes m: "\<forall>n. m = Some n \<longrightarrow> 0 \<le> n"
  shows "enat (returned_count k m) = min (enat k) (max_or_inf m)"
  using m by (auto simp: returned_count_def max_or_inf_def limit_hit_def min_def split: option.splits)

lemma collected_Suc: "collected rs (Suc n) = collected rs n @ rs (Suc n)"
  by (simp add: collected_def)

lemma collected_0: "collected rs 0 = []"
  by (simp add: collected_def)

lemma length_collected_mono: "a \<le> b \<Longrightarrow> length (collected rs a) \<le> length (collected rs b)"
  by (induction b) (auto simp: collected_Suc le_Suc_eq)

lemma full_pagesD:
  assumes "full_pages http p n c rs" and "1 \<le> j" and "j \<le> n"
  shows "http p j = Body (api_body (c j) (rs j))" and "rs j \<noteq> []" and "p \<le> int (length (rs j))"
    and "printable (Val (c j))"
  using assms by (auto simp: full_pages_def)

lemma reach_page:
  assumes fp: "full_pages http p n c rs"
    and nolimit: "\<not> limit_hit m (length (collected rs n))"
  shows "i + d = n \<Longrightarrow>
    \<exists>evs. fetch_loop http p m (collected rs i) (Suc i) out
             = fetch_loop http p m (collected rs n) (Suc n) (out @ evs)
         \<and> requests_of evs = map (Pair p) [Suc i ..< Suc n]"
proof (induction d arbitrary: i out)
  case 0
  then show ?case by (intro exI[of _ "[]"]) simp
next
  case (Suc d)
  have j: "1 \<le> Suc i" "Suc i \<le> n" using Suc.prems by simp_all
  note pg = full_pagesD[OF fp j]
  have "length (collected rs (Suc i)) \<le> length (collected rs n)"
    using j(2) by (rule length_collected_mono)
  with nolimit have nl: "\<not> limit_hit m (length (collected rs (Suc i)))"
    using limit_hit_mono by blast
  have "\<exists>evs. fetch_page http p m (collected rs i) (Suc i) = Continue (collected rs (Suc i)) evs
          \<and> requests_of evs = [(p, Suc i)]"
    using nl pg(2) pg(3)
    unfolding fetch_page_body[where g = http and p = p and page = "Suc i", OF pg(1) pg(4)]
    by (simp add: collected_Suc requests_of_page_report requests_of_append)
  then obtain evs where
    st: "fetch_page http p m (collected rs i) (Suc i) = Continue (collected rs (Suc i)) evs"
    and rq: "requests_of evs = [(p, Suc i)]" by blast
  have "Suc i + d = n" using Suc.prems by simp
  from Suc.IH[OF this, of "out @ evs"] obtain evs' where
    run: "fetch_loop http p m (collected rs (Suc i)) (Suc (Suc i)) (out @ evs)
           = fetch_loop http p m (collected rs n) (Suc n) ((out @ evs) @ evs')"
    and rq': "requests_of evs' = map (Pair p) [Suc (Suc i) ..< Suc n]" by blast
  have lt: "Suc i < Suc n" using j(2) by simp
  show ?case
    using fetch_loop_continue[OF st, of out] run rq rq' lt
    by (intro exI[of _ "evs @ evs'"]) (simp add: requests_of_append upt_conv_Cons)
qed

lemma run_to_raise:
  assumes fp: "full_pages http p n c rs"
    and nolimit: "\<not> limit_hit m (length (collected rs n))"
    and bad: "http p (Suc n) = Raises e"
  shows "\<exists>evs. get_crick_datasets http p m
           = Some (if is_RequestException e
                   then (Returned (collected rs n),
                         evs @ [Get p (Suc n), Print [Lit ''Error fetching data: '', ExnStr e]])
                   else (Raised e, evs @ [Get p (Suc n)]))
         \<and> requests_of evs = map (Pair p) [1 ..< Suc n]"
proof -
  have "0 + n = n" by simp
  from reach_page[OF fp nolimit this, of banner] obtain evs where
    run: "fetch_loop http p m (collected rs 0) (Suc 0) banner
           = fetch_loop http p m (collected rs n) (Suc n) (banner @ evs)"
    and rq: "requests_of evs = map (Pair p) [Suc 0 ..< Suc n]" by blast
  have st: "fetch_page http p m (collected rs n) (Suc n) = handle e (collected rs n) [Get p (Suc n)]"
    using bad by (rule fetch_page_raises)
  show ?thesis
  proof (cases "is_RequestException e")
    case True
    with st have "fetch_page http p m (collected rs n) (Suc n)
        = Stop (Returned (collected rs n))
            [Get p (Suc n), Print [Lit ''Error fetching data: '', ExnStr e]]"
      by (simp add: handle_def)
    from fetch_loop_stop[OF this, of "banner @ evs"] run rq True show ?thesis
      by (intro exI[of _ "banner @ evs"])
         (simp add: get_crick_datasets_def collected_0 requests_of_append requests_of_banner)
  next
    case False
    with st have "fetch_page http p m (collected rs n) (Suc n) = Stop (Raised e) [Get p (Suc n)]"
      by (simp add: handle_def)
    from fetch_loop_stop[OF this, of "banner @ evs"] run rq False show ?thesis
      by (intro exI[of _ "banner @ evs"])
         (simp add: get_crick_datasets_def collected_0 requests_of_append requests_of_banner)
  qed
qed

section \<open>Facts about the text written and the lines printed\<close>

lemma encodable_escape: "encodable (escape c) \<Longrightarrow> \<not> is_surrogate c"
  by (simp add: escape_def encodable_Cons is_surrogate_def split: if_splits)

lemma encodable_dump_string: "encodable (dump_string s) \<Longrightarrow> encodable s"
proof -
  have "encodable (concat (map escape s)) \<Longrightarrow> encodable s"
    by (induction s) (auto simp: encodable_Cons dest: encodable_escape)
  then show "encodable (dump_string s) \<Longrightarrow> encodable s"
    by (simp add: dump_string_def encodable_Cons)
qed

lemma encodable_dump:
  "encodable (dump_value lvl v) \<Longrightarrow> clean v"
  "encodable (dump_items lvl xs) \<Longrightarrow> clean_items xs"
  "encodable (dump_pairs lvl kvs) \<Longrightarrow> clean_pairs kvs"
proof (induction lvl v and lvl xs and lvl kvs rule: dump_value_dump_items_dump_pairs.induct)
  case (4 level f)
  then show ?case by (cases f) (simp_all add: dump_float_def)
next
  case (5 level s)
  then show ?case by (simp add: encodable_dump_string)
next
  case (6 level xs)
  then show ?case by (cases "xs = []") (simp_all add: encodable_Cons)
next
  case (7 level kvs)
  then show ?case by (cases "kvs = []") (simp_all add: encodable_Cons)
next
  case (9 level x xs)
  then show ?case by (cases "xs = []") (simp_all add: encodable_Cons)
next
  case (11 level kv kvs)
  then show ?case
    by (cases "kvs = []") (auto simp: encodable_Cons dest: encodable_dump_string)
qed simp_all

lemma encodable_replicate: "\<not> is_surrogate c \<Longrightarrow> encodable (replicate n c)"
  by (simp add: encodable_def list_all_iff)

lemma encodable_newline_indent [simp]: "encodable (newline_indent level)"
  by (simp add: newline_indent_def encodable_Cons encodable_replicate is_surrogate_def)

lemma encodable_dec [simp]: "encodable (dec n)"
proof (induction n rule: dec.induct)
  case (1 n)
  show ?case
  proof (cases "n < 10")
    case True
    then show ?thesis by (subst dec.simps) (simp add: encodable_Cons is_surrogate_def)
  next
    case False
    have "n mod 10 < 10" by simp
    then have "\<not> is_surrogate (0x30 + n mod 10)" unfolding is_surrogate_def by linarith
    with False 1 show ?thesis by (subst dec.simps) (simp add: encodable_Cons)
  qed
qed

lemma encodable_dump_int [simp]: "encodable (dump_int i)"
  by (simp add: dump_int_def encodable_Cons is_surrogate_def)

lemma escape_encodable: "\<not> is_surrogate c \<Longrightarrow> encodable (escape c)"
proof -
  assume c: "\<not> is_surrogate c"
  have h: "\<not> is_surrogate (hexdigit d)" if "d < 16" for d
    using that unfolding hexdigit_def is_surrogate_def by (simp split: if_splits)
  have "c < 0x20 \<Longrightarrow> c div 16 < 16" by simp
  moreover have "c mod 16 < 16" by simp
  ultimately show ?thesis using c h
    by (simp add: escape_def encodable_Cons) (simp add: is_surrogate_def)
qed

lemma dump_string_encodable: "encodable s \<Longrightarrow> encodable (dump_string s)"
proof -
  have "encodable s \<Longrightarrow> encodable (concat (map escape s))"
    by (induction s) (auto simp: encodable_Cons escape_encodable)
  then show "encodable s \<Longrightarrow> encodable (dump_string s)"
    by (simp add: dump_string_def encodable_Cons is_surrogate_def)
qed

lemma clean_dump:
  "clean v \<Longrightarrow> encodable (dump_value lvl v)"
  "clean_items xs \<Longrightarrow> encodable (dump_items lvl xs)"
  "clean_pairs kvs \<Longrightarrow> encodable (dump_pairs lvl kvs)"
proof (induction lvl v and lvl xs and lvl kvs rule: dump_value_dump_items_dump_pairs.induct)
  case (4 level f)
  then show ?case by (cases f) (simp_all add: dump_float_def)
next
  case (5 level s)
  then show ?case by (simp add: dump_string_encodable)
next
  case (6 level xs)
  then show ?case by (cases "xs = []") (simp_all add: encodable_Cons is_surrogate_def)
next
  case (7 level kvs)
  then show ?case by (cases "kvs = []") (simp_all add: encodable_Cons is_surrogate_def)
next
  case (9 level x xs)
  then show ?case by (cases "xs = []") (simp_all add: encodable_Cons is_surrogate_def)
next
  case (11 level kv kvs)
  then show ?case
    by (cases "kvs = []") (simp_all add: encodable_Cons is_surrogate_def dump_string_encodable)
qed simp_all

lemma clean_items_iff: "clean_items xs \<longleftrightarrow> (\<forall>x \<in> set xs. clean x)"
  by (induction xs) auto

lemma clean_items_take: "clean_items ds \<Longrightarrow> clean_items (take k ds)"
  unfolding clean_items_iff by (meson in_set_takeD)

lemma fs_write_ok:
  assumes "file_open w filename = None" and "clean_items ds"
    and "file_store w filename (json_dump ds) = None"
  shows "fs_write w filename ds = None"
proof -
  from assms(2) have "clean (JArr ds)" by simp
  then have "encodable (json_dump ds)" unfolding json_dump_def by (rule clean_dump(1))
  with assms show ?thesis by (simp add: fs_write_def)
qed

lemma clean_itemsD: "clean_items xs \<Longrightarrow> x \<in> set xs \<Longrightarrow> clean x"
  by (induction xs) auto

lemma clean_pairsD: "clean_pairs kvs \<Longrightarrow> map_of kvs k = Some v \<Longrightarrow> clean v"
  by (induction kvs) (auto split: if_splits)

lemma clean_printable: "clean v \<Longrightarrow> printable (Val v)"
proof (cases v)
  case (JFloat f)
  assume "clean v"
  with JFloat show ?thesis by (cases f) simp_all
qed simp_all

lemma clean_get_or: "clean_pairs kvs \<Longrightarrow> clean dflt \<Longrightarrow> clean (get_or kvs k dflt)"
  by (auto simp: get_or_def dest: clean_pairsD split: option.splits)

lemma clean_showable:
  assumes "clean d" and "previewable d"
  shows "showable d"
proof (cases d)
  case (JObj kvs)
  with assms have c: "clean_pairs kvs" by simp
  have "clean (flag_or_false kvs)"
  proof (cases "map_of kvs (py ''open_access'')")
    case None
    then show ?thesis by (simp add: flag_or_false_def)
  next
    case (Some oa)
    from clean_pairsD[OF c Some] have "clean oa" .
    then show ?thesis using Some
      by (cases oa) (simp_all add: flag_or_false_def clean_get_or)
  qed
  with c assms JObj show ?thesis
    by (simp add: clean_printable clean_get_or)
qed (use assms in simp_all)

lemma fs_write_clean: "fs_write w filename ds = None \<Longrightarrow> clean_items ds"
proof -
  assume "fs_write w filename ds = None"
  then have "encodable (json_dump ds)"
    by (auto simp: fs_write_def split: option.splits if_splits)
  then have "clean (JArr ds)" unfolding json_dump_def by (rule encodable_dump(1))
  then show ?thesis by simp
qed

lemma written_showable:
  assumes "fs_write w filename ds = None" and "\<forall>d \<in> set (take 5 ds). previewable d"
  shows "\<forall>d \<in> set (take 5 ds). showable d"
proof
  fix d assume d: "d \<in> set (take 5 ds)"
  then have "d \<in> set ds" by (rule in_set_takeD)
  with fs_write_clean[OF assms(1)] have "clean d" by (rule clean_itemsD)
  with assms(2) d show "showable d" by (simp add: clean_showable)
qed

lemma main_fetch_raised:
  "get_crick_datasets (http_get w) 200 None = Some (Raised e, out) \<Longrightarrow> main w = Some (Uncaught e, out)"
  by (simp add: main_def)



lemma main_proceeds:
  assumes "get_crick_datasets (http_get w) 200 None = Some (Returned ds, out)" and "ds \<noteq> []"
    and "fs_write w default_filename ds = None"
  shows "\<exists>st rest. main w = Some (st,
           out @ [WriteFile default_filename (json_dump ds),
                  Print [Lit (CHR 0x0A # ''Saved ''), Num (int (length ds)),
                         Lit '' datasets to '', Lit default_filename]]
               @ snd (print_summary ds) @ rest)"
  using assms
  by (cases "print_summary ds"; cases "fst (print_summary ds)"; cases "first_keys ds")
     (auto simp: main_def save_datasets_def Let_def)

lemma preview_showable:
  assumes "showable d"
  shows "\<exists>kvs. d = JObj kvs \<and>
     preview i d out = (Returned (), out @ map Print (preview_lines i
        (get_or kvs (py ''title'') (JStr (py ''No title'')))
        (get_or kvs (py ''publication_year'') (JStr (py ''Unknown year'')))
        (get_or kvs (py ''doi'') (JStr (py ''No DOI'')))
        (flag_or_false kvs)))"
proof (cases d)
  case (JObj kvs)
  let ?t = "get_or kvs (py ''title'') (JStr (py ''No title''))"
  let ?y = "get_or kvs (py ''publication_year'') (JStr (py ''Unknown year''))"
  let ?d = "get_or kvs (py ''doi'') (JStr (py ''No DOI''))"
  let ?o = "flag_or_false kvs"
  from assms JObj have p: "printable (Val ?t)" "printable (Val ?y)" "printable (Val ?d)"
    "printable (Val ?o)" and pv: "previewable (JObj kvs)" by simp_all
  have lines: "list_all (list_all printable) (preview_lines i ?t ?y ?d ?o)"
    using p by (simp add: preview_lines_def)
  have "preview i (JObj kvs) out = print_all (preview_lines i ?t ?y ?d ?o) out"
    using pv
    by (auto simp: preview_def get_or_def flag_or_false_def split: option.splits json.splits)
  with print_all_printable[OF lines, of out] JObj show ?thesis by simp
qed (use assms in simp_all)

lemma preview_loop_showable:
  "\<forall>d \<in> set ds. showable d \<Longrightarrow>
   \<exists>blocks. preview_loop i ds out = (Returned (), out @ concat blocks)
      \<and> length blocks = length ds
      \<and> (\<forall>k < length ds. \<forall>out'. preview (i + k) (ds ! k) out' = (Returned (), out' @ blocks ! k))"
proof (induction ds arbitrary: i out)
  case Nil
  show ?case by (intro exI[of _ "[]"]) simp
next
  case (Cons d ds)
  from Cons.prems have sd: "showable d" by simp
  from preview_showable[OF sd, of i] obtain kvs where kvs: "d = JObj kvs" by blast
  define b where "b = map Print (preview_lines i
        (get_or kvs (py ''title'') (JStr (py ''No title'')))
        (get_or kvs (py ''publication_year'') (JStr (py ''Unknown year'')))
        (get_or kvs (py ''doi'') (JStr (py ''No DOI'')))
        (flag_or_false kvs))"
  have b: "preview i d out' = (Returned (), out' @ b)" for out'
    using preview_showable[OF sd, of i out'] kvs by (simp add: b_def)
  from Cons.prems have "\<forall>d \<in> set ds. showable d" by simp
  from Cons.IH[OF this, of "Suc i" "out @ b"] obtain blocks where
    run: "preview_loop (Suc i) ds (out @ b) = (Returned (), (out @ b) @ concat blocks)"
    and len: "length blocks = length ds"
    and each: "\<forall>k < length ds. \<forall>out'. preview (Suc i + k) (ds ! k) out'
                 = (Returned (), out' @ blocks ! k)" by blast
  have "\<forall>k < length (d # ds). \<forall>out'. preview (i + k) ((d # ds) ! k) out'
          = (Returned (), out' @ (b # blocks) ! k)"
  proof (intro allI impI)
    fix k out' assume "k < length (d # ds)"
    then show "preview (i + k) ((d # ds) ! k) out' = (Returned (), out' @ (b # blocks) ! k)"
      using b each by (cases k) simp_all
  qed
  with run len b[of out] show ?case by (intro exI[of _ "b # blocks"]) simp
qed

lemma print_summary_showable:
  assumes "\<forall>d \<in> set (take 5 ds). showable d"
  shows "\<exists>blocks. print_summary ds =
           (Returned (),
            summary_header (length ds) @
            (if ds = [] then []
             else Print [Lit ''Sample datasets (first 5):'', Lit [CHR 0x0A]] # concat blocks))
        \<and> length blocks = min 5 (length ds)
        \<and> (\<forall>k < length blocks. \<forall>out'. preview (Suc k) (ds ! k) out'
               = (Returned (), out' @ blocks ! k))"
proof (cases "ds = []")
  case True
  then show ?thesis by (intro exI[of _ "[]"]) (simp add: print_summary_def)
next
  case False
  from preview_loop_showable[OF assms, of 1
      "summary_header (length ds) @ [Print [Lit ''Sample datasets (first 5):'', Lit [CHR 0x0A]]]"]
  obtain blocks where
    run: "preview_loop 1 (take 5 ds)
            (summary_header (length ds) @ [Print [Lit ''Sample datasets (first 5):'', Lit [CHR 0x0A]]])
          = (Returned (),
             (summary_header (length ds) @ [Print [Lit ''Sample datasets (first 5):'', Lit [CHR 0x0A]]])
              @ concat blocks)"
    and len: "length blocks = length (take 5 ds)"
    and each: "\<forall>k < length (take 5 ds). \<forall>out'. preview (1 + k) (take 5 ds ! k) out'
                 = (Returned (), out' @ blocks ! k)"
    by blast
  have "\<forall>k < length blocks. \<forall>out'. preview (Suc k) (ds ! k) out' = (Returned (), out' @ blocks ! k)"
    using each len by simp
  with run len False show ?thesis
    by (intro exI[of _ blocks]) (simp add: print_summary_def min.commute)
qed

lemma main_exit0:
  assumes fetch: "get_crick_datasets (http_get w) 200 None = Some (Returned ds, out)"
    and ne: "ds \<noteq> []"
    and wr: "fs_write w default_filename ds = None"
    and ok: "\<forall>d \<in> set (take 5 ds). previewable d"
  shows "\<exists>out'. main w = Some (Exit0, out')"
proof -
  from print_summary_showable[OF written_showable[OF wr ok]]
  obtain s where s: "print_summary ds = (Returned (), s)"
    by blast
  from ne obtain d rest where ds: "ds = d # rest" by (cases ds) auto
  with ok have "previewable d" by simp
  then obtain kvs where "d = JObj kvs" by (cases d) simp_all
  with ds have "first_keys ds = Inr (map fst kvs)" by simp
  with fetch ne wr s show ?thesis
    by (simp add: main_def save_datasets_def Let_def)
qed

lemma length_sample_records: "length (sample_records n) = n"
  by (simp add: sample_records_def)

lemma get_crick_datasets_limit_zero:
  "get_crick_datasets http p (Some 0) = get_crick_datasets http p None"
  by (simp add: get_crick_datasets_def fetch_loop_limit_zero)

lemma mock_run_unlimited:
  assumes p: "1 \<le> p"
  shows "\<exists>evs. get_crick_datasets (mock_api rs) p None = Some (Returned rs, evs)
           \<and> requests_of evs = map (Pair p) [Suc 0 ..< length rs div nat p + 2]"
proof -
  have "\<forall>n. (None :: int option) = Some n \<longrightarrow> 0 \<le> n" by simp
  from mock_run[OF p this, of rs] show ?thesis
    by (auto simp: returned_count_def pages_requested_def limit_hit_def
        requests_of_append requests_of_banner)
qed

lemma previewable_sample_records: "\<forall>d \<in> set (sample_records n). previewable d"
  by (simp add: sample_records_def)

lemma previewable_take: "\<forall>d \<in> set ds. previewable d \<Longrightarrow> \<forall>d \<in> set (take k ds). previewable d"
  by (meson in_set_takeD)

lemma first_page_450: "mock_page (sample_records 450) 200 (Suc 0) = take 200 (sample_records 450)"
  by (simp add: mock_page_def)

lemma sample_records_nonempty: "0 < n \<Longrightarrow> sample_records n \<noteq> []"
  using length_sample_records[of n] by auto

lemma error_on_page_2_pages:
  "full_pages (http_get (error_on_page_2 e)) 200 1
     (\<lambda>j. JInt 450) (\<lambda>j. mock_page (sample_records 450) 200 j)"
  by (simp add: full_pages_def error_on_page_2_def failing_after_def mock_api_def
      first_page_450 length_sample_records sample_records_nonempty)

lemma error_on_page_2_bad: "http_get (error_on_page_2 e) 200 (Suc 1) = Raises e"
  by (simp add: error_on_page_2_def failing_after_def)

lemma error_on_page_2_collected:
  "collected (\<lambda>j. mock_page (sample_records 450) 200 j) (Suc 0) = take 200 (sample_records 450)"
  by (simp add: collected_def first_page_450)

lemma error_on_page_2_run:
  "\<exists>evs. get_crick_datasets (http_get (error_on_page_2 e)) 200 None
           = Some (if is_RequestException e
                   then (Returned (take 200 (sample_records 450)),
                         evs @ [Get 200 (Suc 1), Print [Lit ''Error fetching data: '', ExnStr e]])
                   else (Raised e, evs @ [Get 200 (Suc 1)]))"
proof -
  have nl: "\<not> limit_hit None (length (collected (\<lambda>j. mock_page (sample_records 450) 200 j) 1))"
    by (simp add: limit_hit_def)
  from run_to_raise[OF error_on_page_2_pages nl error_on_page_2_bad, of e]
  show ?thesis by (auto simp: error_on_page_2_collected)
qed

lemma previewable_first_200: "\<forall>d \<in> set (take 5 (take 200 (sample_records 450))). previewable d"
  by (intro previewable_take previewable_sample_records)

lemma first_200_nonempty: "take 200 (sample_records 450) \<noteq> []"
proof -
  have "length (take 200 (sample_records 450)) = 200" by (simp add: length_sample_records)
  then show ?thesis by auto
qed




lemma clean_sample_records: "clean_items (sample_records n)"
  by (simp add: clean_items_iff sample_records_def)

lemma error_on_page_2_write:
  "clean_items ds \<Longrightarrow> fs_write (error_on_page_2 e) default_filename ds = None"
  by (rule fs_write_ok) (simp_all add: error_on_page_2_def open_ok_def store_ok_def)



section \<open>Reading back what \<^verbatim>\<open>json.dump\<close> wrote\<close>


lemma dec_digits: "list_all is_digit (dec n)"
proof (induction n rule: dec.induct)
  case (1 n)
  show ?case
  proof (cases "n < 10")
    case True
    then show ?thesis by (subst dec.simps) (simp add: is_digit_def)
  next
    case False
    have "n mod 10 < 10" by simp
    then have "is_digit (48 + n mod 10)" unfolding is_digit_def by linarith
    with 1 False show ?thesis by (subst dec.simps) simp
  qed
qed

lemma dec_nonempty: "dec n \<noteq> []"
  by (subst dec.simps) simp

lemma undec_snoc: "undec (ds @ [d]) = 10 * undec ds + (d - 0x30)"
  by (simp add: undec_def)

lemma undec_dec: "undec (dec n) = n"
proof (induction n rule: dec.induct)
  case (1 n)
  show ?case
  proof (cases "n < 10")
    case True
    then show ?thesis by (subst dec.simps) (simp add: undec_def)
  next
    case False
    with 1 show ?thesis by (subst dec.simps) (simp add: undec_snoc)
  qed
qed

lemma dec_zero: "dec 0 = [0x30]"
  by (subst dec.simps) simp

lemma hd_dec: "n \<noteq> 0 \<Longrightarrow> hd (dec n) \<noteq> 0x30"
proof (induction n rule: dec.induct)
  case (1 n)
  show ?case
  proof (cases "n < 10")
    case True
    with 1(2) show ?thesis by (subst dec.simps) simp
  next
    case False
    then have "n div 10 \<noteq> 0" by simp
    with 1(1) False have "hd (dec (n div 10)) \<noteq> 0x30" by simp
    with False show ?thesis by (subst dec.simps) (simp add: dec_nonempty)
  qed
qed

lemma takeWhile_digits:
  assumes "list_all is_digit ds" and "number_end rest"
  shows "takeWhile is_digit (ds @ rest) = ds"
proof -
  have "takeWhile is_digit rest = []"
    using assms(2) by (cases rest) (auto simp: number_end_def)
  with assms(1) show ?thesis by (simp add: takeWhile_append2 list_all_iff)
qed

lemma scan_digits:
  assumes e: "number_end rest"
  shows "scan_number fo (dec n @ rest) = Some (JInt (int n), rest)"
proof -
  have ne: "dec n \<noteq> []" by (rule dec_nonempty)
  have dg: "list_all is_digit (dec n)" by (rule dec_digits)
  obtain d ds where dd: "dec n = d # ds" using ne by (cases "dec n") auto
  with dg have h: "is_digit d" by simp
  then have nm: "d \<noteq> 0x2D" by (auto simp: is_digit_def)
  have s1: "scan_sign (dec n @ rest) = ([], dec n @ rest)"
    using nm by (simp add: scan_sign_def dd)
  have s2: "scan_whole (dec n @ rest) = Some (dec n, rest)"
  proof (cases "n = 0")
    case True
    then show ?thesis by (simp add: dec_zero scan_whole_def is_digit_def)
  next
    case False
    from hd_dec[OF this] have "d \<noteq> 0x30" by (simp add: dd)
    moreover have "takeWhile is_digit (dec n @ rest) = dec n"
      by (rule takeWhile_digits[OF dg e])
    moreover have "dropWhile is_digit (dec n @ rest) = rest"
      using takeWhile_dropWhile_id[of is_digit "dec n @ rest"] calculation(2) by simp
    ultimately show ?thesis using h by (simp add: scan_whole_def dd[symmetric]) (simp add: dd)
  qed
  have s3: "scan_frac rest = ([], rest)"
    using e by (auto simp: scan_frac_def number_end_def split: list.splits)
  have s4: "scan_exp rest = ([], rest)"
    using e by (auto simp: scan_exp_def number_end_def split: list.splits)
  show ?thesis by (simp add: scan_number_def s1 s2 s3 s4 undec_dec)
qed

lemma scan_int:
  assumes e: "number_end rest"
  shows "scan_number fo (dump_int i @ rest) = Some (JInt i, rest)"
proof (cases "i < 0")
  case False
  with scan_digits[OF e, of fo "nat i"] show ?thesis by (simp add: dump_int_def)
next
  case True
  let ?n = "nat (- i)"
  have ne: "dec ?n \<noteq> []" by (rule dec_nonempty)
  have dg: "list_all is_digit (dec ?n)" by (rule dec_digits)
  obtain d ds where dd: "dec ?n = d # ds" using ne by (cases "dec ?n") auto
  with dg have h: "is_digit d" by simp
  have s1: "scan_sign (0x2D # dec ?n @ rest) = ([0x2D], dec ?n @ rest)"
    by (simp add: scan_sign_def)
  have s2: "scan_whole (dec ?n @ rest) = Some (dec ?n, rest)"
  proof -
    have "?n \<noteq> 0" using True by simp
    from hd_dec[OF this] have "d \<noteq> 0x30" by (simp add: dd)
    moreover have "takeWhile is_digit (dec ?n @ rest) = dec ?n"
      by (rule takeWhile_digits[OF dg e])
    moreover have "dropWhile is_digit (dec ?n @ rest) = rest"
      using takeWhile_dropWhile_id[of is_digit "dec ?n @ rest"] calculation(2) by simp
    ultimately show ?thesis using h by (simp add: scan_whole_def dd[symmetric]) (simp add: dd)
  qed
  have s3: "scan_frac rest = ([], rest)"
    using e by (auto simp: scan_frac_def number_end_def split: list.splits)
  have s4: "scan_exp rest = ([], rest)"
    using e by (auto simp: scan_exp_def number_end_def split: list.splits)
  show ?thesis using True by (simp add: dump_int_def scan_number_def s1 s2 s3 s4 undec_dec)
qed


lemma hexval_hexdigit: "d < 16 \<Longrightarrow> hexval (hexdigit d) = Some d"
  by (auto simp: hexval_def hexdigit_def)

lemma unescape_control:
  assumes "c < 0x20"
  shows "unescape (0x75 # 0x30 # 0x30 # hexdigit (c div 16) # hexdigit (c mod 16) # t) = Some (c, t)"
proof -
  have a: "c div 16 < 16" and b: "c mod 16 < 16" using assms by simp_all
  have z: "hexval 0x30 = Some 0" by (simp add: hexval_def)
  have "hex4 (0x30 # 0x30 # hexdigit (c div 16) # hexdigit (c mod 16) # t)
          = Some (c div 16 * 16 + c mod 16)"
    by (simp add: hex4_def z hexval_hexdigit[OF a] hexval_hexdigit[OF b])
  then have h: "hex4 (0x30 # 0x30 # hexdigit (c div 16) # hexdigit (c mod 16) # t) = Some c"
    by simp
  show ?thesis using assms by (simp add: unescape_def h)
qed

lemma scanstring_escape:
  assumes "scanstring t = Some (s, r)"
  shows "scanstring (escape c @ t) = Some (c # s, r)"
proof -
  consider "c = 0x22" | "c = 0x5C" | "c = 0x0A" | "c = 0x0D" | "c = 0x09" | "c = 0x08" | "c = 0x0C"
    | "c < 0x20" "c \<noteq> 0x0A" "c \<noteq> 0x0D" "c \<noteq> 0x09" "c \<noteq> 0x08" "c \<noteq> 0x0C"
    | "\<not> c < 0x20" "c \<noteq> 0x22" "c \<noteq> 0x5C"
    by fastforce
  then show ?thesis
  proof cases
    case 8
    then have e: "escape c = [0x5C, 0x75, 0x30, 0x30, hexdigit (c div 16), hexdigit (c mod 16)]"
      by (auto simp: escape_def)
    show ?thesis using assms by (simp add: e unescape_control[OF 8(1)])
  next
    case 9
    then have e: "escape c = [c]" by (auto simp: escape_def)
    show ?thesis using assms 9 by (simp add: e)
  qed (use assms in \<open>simp_all add: escape_def unescape_def\<close>)
qed

lemma scanstring_dump: "scanstring (concat (map escape s) @ 0x22 # rest) = Some (s, rest)"
  by (induction s) (simp_all add: scanstring_escape)

lemma skip_ws_indent: "skip_ws (newline_indent n @ t) = skip_ws t"
  by (simp add: skip_ws_def newline_indent_def is_ws_def dropWhile_append)

lemma skip_ws_all: "list_all is_ws ws \<Longrightarrow> skip_ws (ws @ t) = skip_ws t"
  by (simp add: skip_ws_def dropWhile_append list_all_iff)

lemma skip_ws_Cons: "\<not> is_ws c \<Longrightarrow> skip_ws (c # t) = c # t"
  by (simp add: skip_ws_def)

lemma indent_ws: "list_all is_ws (newline_indent n)"
  by (simp add: newline_indent_def is_ws_def list_all_iff)

lemma dict_set_fresh: "k \<notin> fst ` set d \<Longrightarrow> dict_set k v d = d @ [(k, v)]"
  by (induction d) auto

lemma dict_of_distinct_aux:
  "distinct (map fst (d @ kvs)) \<Longrightarrow>
   foldl (\<lambda>d kv. dict_set (fst kv) (snd kv) d) d kvs = d @ kvs"
proof (induction kvs arbitrary: d)
  case Nil
  show ?case by simp
next
  case (Cons kv kvs)
  from Cons.prems have "fst kv \<notin> fst ` set d" by auto
  then have s: "dict_set (fst kv) (snd kv) d = d @ [kv]" by (simp add: dict_set_fresh)
  from Cons.prems have "distinct (map fst ((d @ [kv]) @ kvs))" by simp
  from Cons.IH[OF this] s show ?case by simp
qed

lemma dict_of_distinct: "distinct (map fst kvs) \<Longrightarrow> dict_of kvs = kvs"
  using dict_of_distinct_aux[of "[]" kvs] by (simp add: dict_of_def)

text \<open>A float text followed by a delimiter is read as that float.\<close>

lemma takeWhile_stop: "ys = [] \<or> \<not> P (hd ys) \<Longrightarrow> takeWhile P (xs @ ys) = takeWhile P xs"
proof (induction xs)
  case Nil
  then show ?case by (cases ys) auto
next
  case (Cons x xs)
  then show ?case by simp
qed

lemma dropWhile_stop: "ys = [] \<or> \<not> P (hd ys) \<Longrightarrow> dropWhile P (xs @ ys) = dropWhile P xs @ ys"
proof (induction xs)
  case Nil
  then show ?case by (cases ys) auto
next
  case (Cons x xs)
  then show ?case by simp
qed

lemma delimited_stop: "delimited rest \<Longrightarrow> rest = [] \<or> \<not> is_digit (hd rest)"
  by (cases rest) (auto simp: delimited_def is_ws_def is_digit_def)

lemma takeWhile_digits_stop:
  "delimited rest \<Longrightarrow> takeWhile is_digit (xs @ rest) = takeWhile is_digit xs"
  using takeWhile_stop[where P = is_digit and ys = rest and xs = xs] delimited_stop[of rest]
  by blast

lemma dropWhile_digits_stop:
  "delimited rest \<Longrightarrow> dropWhile is_digit (xs @ rest) = dropWhile is_digit xs @ rest"
  using dropWhile_stop[where P = is_digit and ys = rest and xs = xs] delimited_stop[of rest]
  by blast

lemma scan_sign_app:
  "r \<noteq> [] \<Longrightarrow> scan_sign (r @ rest) = (fst (scan_sign r), snd (scan_sign r) @ rest)"
  by (cases r) (simp_all add: scan_sign_def)

lemma scan_sign_id: "fst (scan_sign r) @ snd (scan_sign r) = r"
  by (cases r) (simp_all add: scan_sign_def)

lemma scan_whole_app:
  assumes "scan_whole t = Some (ip, t2)" and "delimited rest"
  shows "scan_whole (t @ rest) = Some (ip, t2 @ rest)"
proof (cases t)
  case Nil
  with assms(1) show ?thesis by (simp add: scan_whole_def)
next
  case (Cons c cs)
  note dl = assms(2)
  from assms(1) Cons show ?thesis
    by (auto simp: scan_whole_def takeWhile_digits_stop[OF dl] dropWhile_digits_stop[OF dl] split: if_splits)
qed

lemma scan_whole_id: "scan_whole t = Some (ip, t2) \<Longrightarrow> ip @ t2 = t"
  by (cases t) (auto simp: scan_whole_def split: if_splits)

lemma scan_frac_id: "fst (scan_frac t) @ snd (scan_frac t) = t"
  by (auto simp: scan_frac_def split: list.splits)

lemma scan_frac_rest: "delimited rest \<Longrightarrow> scan_frac rest = ([], rest)"
  by (auto simp: scan_frac_def delimited_def is_ws_def split: list.splits)

lemma scan_frac_app:
  assumes "delimited rest"
  shows "scan_frac (t @ rest) = (fst (scan_frac t), snd (scan_frac t) @ rest)"
proof (cases t)
  case Nil
  with scan_frac_rest[OF assms] show ?thesis by (simp add: scan_frac_def)
next
  case (Cons p ds)
  note dl = assms
  note st = delimited_stop[OF assms]
  show ?thesis
  proof (cases ds)
    case Nil
    with Cons st show ?thesis by (cases rest) (auto simp: scan_frac_def)
  next
    case (Cons d ds')
    with \<open>t = p # ds\<close> show ?thesis
      by (auto simp: scan_frac_def takeWhile_digits_stop[OF dl] dropWhile_digits_stop[OF dl])
  qed
qed

lemma scan_exp_sign_app:
  "cs \<noteq> [] \<Longrightarrow>
     scan_exp_sign (cs @ rest) = (fst (scan_exp_sign cs), snd (scan_exp_sign cs) @ rest)"
  by (cases cs) (simp_all add: scan_exp_sign_def)

lemma scan_exp_sign_id: "fst (scan_exp_sign cs) @ snd (scan_exp_sign cs) = cs"
  by (cases cs) (simp_all add: scan_exp_sign_def)

lemma scan_exp_id: "fst (scan_exp t) @ snd (scan_exp t) = t"
proof (cases t)
  case Nil
  then show ?thesis by (simp add: scan_exp_def)
next
  case (Cons e cs)
  obtain sg ds where s: "scan_exp_sign cs = (sg, ds)" by force
  with scan_exp_sign_id[of cs] have "sg @ ds = cs" by simp
  with Cons s show ?thesis by (auto simp: scan_exp_def)
qed

lemma scan_exp_rest: "delimited rest \<Longrightarrow> scan_exp rest = ([], rest)"
  by (cases rest) (auto simp: scan_exp_def delimited_def is_ws_def)

lemma scan_exp_app:
  assumes "delimited rest" and "snd (scan_exp t) = []"
  shows "scan_exp (t @ rest) = (fst (scan_exp t), rest)"
proof (cases t)
  case Nil
  with scan_exp_rest[OF assms(1)] show ?thesis by (simp add: scan_exp_def)
next
  case (Cons e cs)
  note dl = assms(1)
  obtain sg ds where s: "scan_exp_sign cs = (sg, ds)" by force
  from assms(2) Cons s have e: "e = 0x65 \<or> e = 0x45" and ds: "ds \<noteq> []" "is_digit (hd ds)"
    and all: "dropWhile is_digit ds = []"
    by (auto simp: scan_exp_def split: if_splits)
  from ds s have "cs \<noteq> []" by (auto simp: scan_exp_sign_def)
  from scan_exp_sign_app[OF this, of rest] s
  have s': "scan_exp_sign (cs @ rest) = (sg, ds @ rest)" by simp
  from ds have h: "hd (ds @ rest) = hd ds" by simp
  from Cons e ds all s s' h show ?thesis
    by (auto simp: scan_exp_def takeWhile_digits_stop[OF dl] dropWhile_digits_stop[OF dl])
qed

lemma scan_float:
  assumes "float_text r" and "delimited rest"
  shows "scan_number fo (r @ rest) = Some (JFloat (fo r), rest)"
proof -
  obtain sg t1 where s: "scan_sign r = (sg, t1)" by force
  from assms(1) s obtain ip t2 where w: "scan_whole t1 = Some (ip, t2)"
    by (auto simp: float_text_def split: option.splits)
  obtain fp t3 where f: "scan_frac t2 = (fp, t3)" by force
  obtain ep t4 where e: "scan_exp t3 = (ep, t4)" by force
  from assms(1) s w f e have t4: "t4 = []" and fl: "fp \<noteq> [] \<or> ep \<noteq> []"
    by (simp_all add: float_text_def)
  have rne: "r \<noteq> []" using s w by (auto simp: scan_sign_def scan_whole_def)
  have s': "scan_sign (r @ rest) = (sg, t1 @ rest)" using scan_sign_app[OF rne, of rest] s by simp
  have w': "scan_whole (t1 @ rest) = Some (ip, t2 @ rest)"
    using w assms(2) by (rule scan_whole_app)
  have f': "scan_frac (t2 @ rest) = (fp, t3 @ rest)"
    using scan_frac_app[OF assms(2), of t2] f by simp
  have e': "scan_exp (t3 @ rest) = (ep, rest)"
    using scan_exp_app[OF assms(2), of t3] e t4 by simp
  have "sg @ t1 = r" using scan_sign_id[of r] s by simp
  moreover have "ip @ t2 = t1" using w by (rule scan_whole_id)
  moreover have "fp @ t3 = t2" using scan_frac_id[of t2] f by simp
  moreover have "ep = t3" using scan_exp_id[of t3] e t4 by simp
  ultimately have id: "sg @ ip @ fp @ ep = r" by simp
  show ?thesis using fl by (auto simp: scan_number_def s' w' f' e' id)
qed

lemma float_text_start: "float_text r \<Longrightarrow> \<exists>c cs. r = c # cs \<and> (c = 0x2D \<or> is_digit c)"
  by (cases r)
     (auto simp: float_text_def scan_sign_def scan_whole_def split: option.splits if_splits list.splits)

lemma parse_finite:
  assumes "float_text r" and "delimited rest"
  shows "parse_value fo (Suc n) (r @ rest) = Some (JFloat (fo r), rest)"
proof -
  from float_text_start[OF assms(1)] obtain c cs where
    d: "r = c # cs" and c: "c = 0x2D \<or> is_digit c" by blast
  have s: "scan_number fo (c # cs @ rest) = Some (JFloat (fo (c # cs)), rest)"
    using scan_float[OF assms, of fo] by (simp add: d)
  from c have "c \<noteq> 0x22" "c \<noteq> 0x7B" "c \<noteq> 0x5B" "c \<noteq> 0x6E" "c \<noteq> 0x74" "c \<noteq> 0x66"
    by (auto simp: is_digit_def)
  then show ?thesis unfolding d by (simp add: s py_def)
qed

lemma parse_infinity:
  "parse_value fo (Suc n) (py ''Infinity'' @ rest) = Some (JFloat PosInf, rest)"
  by (simp add: py_def scan_number_def scan_sign_def scan_whole_def is_digit_def)

lemma parse_minus_infinity:
  "parse_value fo (Suc n) (py ''-Infinity'' @ rest) = Some (JFloat NegInf, rest)"
  by (simp add: py_def scan_number_def scan_sign_def scan_whole_def is_digit_def)

text \<open>The first character of what is written for a value.\<close>

lemma dump_int_start: "\<exists>c cs. dump_int i = c # cs \<and> (c = 0x2D \<or> is_digit c)"
proof (cases "i < 0")
  case True
  then show ?thesis by (simp add: dump_int_def)
next
  case False
  obtain d ds where dd: "dec (nat i) = d # ds" using dec_nonempty[of "nat i"] by (cases "dec (nat i)") auto
  with dec_digits[of "nat i"] have "is_digit d" by simp
  with dd False show ?thesis by (simp add: dump_int_def)
qed

lemma dump_float_start:
  "float_ok fo f \<Longrightarrow> \<exists>c cs. dump_float f = c # cs \<and> value_start c"
proof (cases f)
  case (Finite m e r)
  assume "float_ok fo f"
  with Finite have "float_text r" by simp
  from float_text_start[OF this] Finite show ?thesis
    by (auto simp: dump_float_def value_start_def)
qed (auto simp: dump_float_def value_start_def py_def)

lemma dump_value_start: "plain fo v \<Longrightarrow> \<exists>c cs. dump_value lvl v = c # cs \<and> value_start c"
proof (cases v)
  case (JInt i)
  from dump_int_start[of i] show ?thesis by (auto simp: JInt value_start_def)
next
  case (JFloat f)
  assume "plain fo v"
  with JFloat have "float_ok fo f" by simp
  from dump_float_start[OF this] JFloat show ?thesis by simp
qed (auto simp: value_start_def py_def dump_string_def)

lemma dump_items_start:
  "xs \<noteq> [] \<Longrightarrow> plain_items fo xs \<Longrightarrow> \<exists>c cs. dump_items lvl xs = c # cs \<and> value_start c"
proof (cases xs)
  case (Cons x rest)
  assume "plain_items fo xs"
  with Cons have "plain fo x" by simp
  from dump_value_start[OF this, of lvl] show ?thesis by (auto simp: Cons)
qed simp

lemma dump_pairs_start:
  "kvs \<noteq> [] \<Longrightarrow> \<exists>cs. dump_pairs lvl kvs = 0x22 # cs"
  by (cases kvs) (auto simp: dump_string_def)

lemma value_start_not_ws: "value_start c \<Longrightarrow> \<not> is_ws c"
  by (auto simp: value_start_def is_ws_def is_digit_def)


lemma delimited_number_end: "delimited rest \<Longrightarrow> number_end rest"
  by (cases rest) (auto simp: delimited_def number_end_def is_ws_def is_digit_def)

lemma parse_int:
  assumes "number_end rest"
  shows "parse_value fo (Suc n) (dump_int i @ rest) = Some (JInt i, rest)"
proof -
  from dump_int_start[of i] obtain c cs where
    d: "dump_int i = c # cs" and c: "c = 0x2D \<or> is_digit c" by blast
  have s: "scan_number fo (c # cs @ rest) = Some (JInt i, rest)"
    using scan_int[OF assms, of fo i] by (simp add: d)
  from c have "c \<noteq> 0x22" "c \<noteq> 0x7B" "c \<noteq> 0x5B" "c \<noteq> 0x6E" "c \<noteq> 0x74" "c \<noteq> 0x66"
    by (auto simp: is_digit_def)
  then show ?thesis by (simp add: d s py_def)
qed

lemma parse_null: "parse_value fo (Suc n) (py ''null'' @ rest) = Some (JNull, rest)"
  by (simp add: py_def)

lemma parse_true: "parse_value fo (Suc n) (py ''true'' @ rest) = Some (JBool True, rest)"
  by (simp add: py_def)

lemma parse_false: "parse_value fo (Suc n) (py ''false'' @ rest) = Some (JBool False, rest)"
  by (simp add: py_def)

lemma parse_string:
  "parse_value fo (Suc n) (dump_string s @ rest) = Some (JStr s, rest)"
  by (simp add: dump_string_def scanstring_dump)

lemma parse_empty_array: "parse_value fo (Suc n) (py ''[]'' @ rest) = Some (JArr [], rest)"
  by (simp add: py_def skip_ws_def is_ws_def)

lemma parse_empty_object: "parse_value fo (Suc n) (py ''{}'' @ rest) = Some (JObj [], rest)"
  by (simp add: py_def skip_ws_def is_ws_def)

lemma parse_array:
  assumes start: "items = c # cs" "value_start c"
    and run: "parse_items fo n (items @ tail) = Some (xs, rest)"
  shows "parse_value fo (Suc n) (0x5B # newline_indent lvl @ items @ tail) = Some (JArr xs, rest)"
proof -
  have nws: "\<not> is_ws c" using start(2) by (rule value_start_not_ws)
  have sk: "skip_ws (newline_indent lvl @ items @ tail) = c # cs @ tail"
    using nws by (simp add: skip_ws_indent start(1) skip_ws_Cons)
  have "c \<noteq> 0x5D" using start(2) by (auto simp: value_start_def is_digit_def)
  with run show ?thesis by (simp add: sk) (simp add: start(1))
qed

lemma parse_object:
  assumes start: "items = 0x22 # cs"
    and run: "parse_pairs fo n (items @ tail) = Some (kvs, rest)"
    and dist: "distinct (map fst kvs)"
  shows "parse_value fo (Suc n) (0x7B # newline_indent lvl @ items @ tail) = Some (JObj kvs, rest)"
proof -
  have sk: "skip_ws (newline_indent lvl @ items @ tail) = 0x22 # cs @ tail"
    by (simp add: skip_ws_indent start skip_ws_Cons is_ws_def)
  from run have "parse_pairs fo n (0x22 # cs @ tail) = Some (kvs, rest)" by (simp add: start)
  then show ?thesis by (simp add: sk dict_of_distinct[OF dist])
qed


lemma parse_dump:
  "plain fo v \<Longrightarrow> delimited rest \<Longrightarrow> 2 * length (dump_value lvl v @ rest) + 1 \<le> f \<Longrightarrow>
     parse_value fo f (dump_value lvl v @ rest) = Some (v, rest)"
  "xs \<noteq> [] \<Longrightarrow> plain_items fo xs \<Longrightarrow> list_all is_ws ws \<Longrightarrow>
     2 * length (dump_items lvl xs @ ws @ 0x5D # rest) + 2 \<le> f \<Longrightarrow>
     parse_items fo f (dump_items lvl xs @ ws @ 0x5D # rest) = Some (xs, rest)"
  "kvs \<noteq> [] \<Longrightarrow> plain_pairs fo kvs \<Longrightarrow> list_all is_ws ws \<Longrightarrow>
     2 * length (dump_pairs lvl kvs @ ws @ 0x7D # rest) + 2 \<le> f \<Longrightarrow>
     parse_pairs fo f (dump_pairs lvl kvs @ ws @ 0x7D # rest) = Some (kvs, rest)"
proof (induction lvl v and lvl xs and lvl kvs
    arbitrary: rest f and rest ws f and rest ws f
    rule: dump_value_dump_items_dump_pairs.induct)
  case (1 level)
  then obtain n where "f = Suc n" by (cases f) auto
  then show ?case by (simp only: dump_value.simps parse_null)
next
  case (2 level b)
  then obtain n where "f = Suc n" by (cases f) auto
  then show ?case by (cases b) (simp_all only: dump_value.simps parse_true parse_false if_True if_False)
next
  case (3 level i)
  then obtain n where "f = Suc n" by (cases f) auto
  with delimited_number_end[OF 3(2)] show ?case by (simp only: dump_value.simps parse_int)
next
  case (4 level fl)
  then obtain n where f: "f = Suc n" by (cases f) auto
  show ?case
  proof (cases fl)
    case (Finite m e r)
    with 4(1) have "float_text r" and "fo r = Finite m e r" by simp_all
    with parse_finite[OF this(1) 4(2), of fo n] Finite f show ?thesis
      by (simp only: dump_value.simps dump_float_def pyfloat.case)
  next
    case PosInf
    with f show ?thesis by (simp only: dump_value.simps dump_float_def pyfloat.case parse_infinity)
  next
    case NegInf
    with f show ?thesis
      by (simp only: dump_value.simps dump_float_def pyfloat.case parse_minus_infinity)
  next
    case NaN
    with 4(1) show ?thesis by simp
  qed
next
  case (5 level s)
  then obtain n where "f = Suc n" by (cases f) auto
  then show ?case by (simp only: dump_value.simps parse_string)
next
  case (6 level xs)
  from 6(4) obtain n where f: "f = Suc n" by (cases f) auto
  show ?case
  proof (cases "xs = []")
    case True
    then show ?thesis by (simp del: parse_value.simps add: f parse_empty_array)
  next
    case False
    from 6(2) have pl: "plain_items fo xs" by simp
    from dump_items_start[OF False pl, of "Suc level"] obtain c cs where
      st: "dump_items (Suc level) xs = c # cs" "value_start c" by blast
    have len: "2 * length (dump_items (Suc level) xs @ newline_indent level @ 0x5D # rest) + 2 \<le> n"
      using 6(4) False by (simp add: f newline_indent_def)
    from 6(1)[OF False False pl indent_ws len]
    have run: "parse_items fo n (dump_items (Suc level) xs @ (newline_indent level @ 0x5D # rest))
                 = Some (xs, rest)" by simp
    from parse_array[OF st run, of "Suc level"] False show ?thesis by (simp add: f)
  qed
next
  case (7 level kvs)
  from 7(4) obtain n where f: "f = Suc n" by (cases f) auto
  show ?case
  proof (cases "kvs = []")
    case True
    then show ?thesis by (simp del: parse_value.simps add: f parse_empty_object)
  next
    case False
    from 7(2) have pl: "plain_pairs fo kvs" and dist: "distinct (map fst kvs)" by simp_all
    from dump_pairs_start[OF False, of "Suc level"] obtain cs where
      st: "dump_pairs (Suc level) kvs = 0x22 # cs" by blast
    have len: "2 * length (dump_pairs (Suc level) kvs @ newline_indent level @ 0x7D # rest) + 2 \<le> n"
      using 7(4) False by (simp add: f newline_indent_def)
    from 7(1)[OF False False pl indent_ws len]
    have run: "parse_pairs fo n (dump_pairs (Suc level) kvs @ (newline_indent level @ 0x7D # rest))
                 = Some (kvs, rest)" by simp
    from parse_object[OF st run dist, of "Suc level"] False show ?thesis by (simp add: f)
  qed
next
  case (8 level)
  then show ?case by simp
next
  case (9 level x xs)
  from 9(6) obtain n where f: "f = Suc n" by (cases f) auto
  from 9(4) have px: "plain fo x" and pxs: "plain_items fo xs" by simp_all
  show ?case
  proof (cases "xs = []")
    case True
    have del: "delimited (ws @ 0x5D # rest)" by (cases ws) (use 9(5) in \<open>auto simp: delimited_def\<close>)
    have len: "2 * length (dump_value level x @ ws @ 0x5D # rest) + 1 \<le> n"
      using 9(6) True by (simp add: f)
    from 9(1)[OF px del len]
    have v: "parse_value fo n (dump_value level x @ ws @ 0x5D # rest) = Some (x, ws @ 0x5D # rest)" .
    have sk: "skip_ws (ws @ 0x5D # rest) = 0x5D # rest"
      by (simp add: skip_ws_all[OF 9(5)] skip_ws_Cons is_ws_def)
    show ?thesis using v sk True by (simp add: f)
  next
    case False
    let ?tail = "0x2C # newline_indent level @ dump_items level xs @ ws @ 0x5D # rest"
    have del: "delimited ?tail" by (simp add: delimited_def)
    have len: "2 * length (dump_value level x @ ?tail) + 1 \<le> n"
      using 9(6) False by (simp add: f)
    from 9(1)[OF px del len]
    have v: "parse_value fo n (dump_value level x @ ?tail) = Some (x, ?tail)" .
    have sk: "skip_ws ?tail = ?tail" by (simp add: skip_ws_Cons is_ws_def)
    from dump_items_start[OF False pxs, of level] obtain c cs where
      st: "dump_items level xs = c # cs" "value_start c" by blast
    have sk2: "skip_ws (newline_indent level @ dump_items level xs @ ws @ 0x5D # rest)
                 = dump_items level xs @ ws @ 0x5D # rest"
      using value_start_not_ws[OF st(2)] by (simp add: skip_ws_indent st(1) skip_ws_Cons)
    have len2: "2 * length (dump_items level xs @ ws @ 0x5D # rest) + 2 \<le> n"
      using 9(6) False by (simp add: f)
    from 9(2)[OF False False pxs 9(5) len2]
    have r: "parse_items fo n (dump_items level xs @ ws @ 0x5D # rest) = Some (xs, rest)" .
    show ?thesis using v sk sk2 r False by (simp add: f)
  qed
next
  case (10 level)
  then show ?case by simp
next
  case (11 level kv kvs)
  from 11(6) obtain n where f: "f = Suc n" by (cases f) auto
  from 11(4) have pv: "plain fo (snd kv)" and pkvs: "plain_pairs fo kvs" by simp_all
  have key: "scanstring (concat (map escape (fst kv)) @ 0x22 # t) = Some (fst kv, t)" for t
    by (rule scanstring_dump)
  show ?case
  proof (cases "kvs = []")
    case True
    have del: "delimited (ws @ 0x7D # rest)" by (cases ws) (use 11(5) in \<open>auto simp: delimited_def\<close>)
    have len: "2 * length (dump_value level (snd kv) @ ws @ 0x7D # rest) + 1 \<le> n"
      using 11(6) True by (simp add: f)
    from 11(1)[OF pv del len]
    have v: "parse_value fo n (dump_value level (snd kv) @ ws @ 0x7D # rest)
               = Some (snd kv, ws @ 0x7D # rest)" .
    from dump_value_start[OF pv, of level] obtain c cs where
      st: "dump_value level (snd kv) = c # cs" "value_start c" by blast
    have sk0: "skip_ws (0x20 # dump_value level (snd kv) @ ws @ 0x7D # rest)
                 = dump_value level (snd kv) @ ws @ 0x7D # rest"
      using value_start_not_ws[OF st(2)] by (simp add: skip_ws_def is_ws_def st(1))
    have sk: "skip_ws (ws @ 0x7D # rest) = 0x7D # rest"
      by (simp add: skip_ws_all[OF 11(5)] skip_ws_Cons is_ws_def)
    show ?thesis using v sk sk0 True
      by (simp add: f dump_string_def key skip_ws_Cons is_ws_def)
  next
    case False
    let ?tail = "0x2C # newline_indent level @ dump_pairs level kvs @ ws @ 0x7D # rest"
    have del: "delimited ?tail" by (simp add: delimited_def)
    have len: "2 * length (dump_value level (snd kv) @ ?tail) + 1 \<le> n"
      using 11(6) False by (simp add: f)
    from 11(1)[OF pv del len]
    have v: "parse_value fo n (dump_value level (snd kv) @ ?tail) = Some (snd kv, ?tail)" .
    from dump_value_start[OF pv, of level] obtain c cs where
      st: "dump_value level (snd kv) = c # cs" "value_start c" by blast
    have sk0: "skip_ws (0x20 # dump_value level (snd kv) @ ?tail)
                 = dump_value level (snd kv) @ ?tail"
      using value_start_not_ws[OF st(2)] by (simp add: skip_ws_def is_ws_def st(1))
    have sk: "skip_ws ?tail = ?tail" by (simp add: skip_ws_Cons is_ws_def)
    from dump_pairs_start[OF False, of level] obtain ps where
      stp: "dump_pairs level kvs = 0x22 # ps" by blast
    have sk2: "skip_ws (newline_indent level @ dump_pairs level kvs @ ws @ 0x7D # rest)
                 = dump_pairs level kvs @ ws @ 0x7D # rest"
      by (simp add: skip_ws_indent stp skip_ws_Cons is_ws_def)
    have len2: "2 * length (dump_pairs level kvs @ ws @ 0x7D # rest) + 2 \<le> n"
      using 11(6) False by (simp add: f)
    from 11(2)[OF False False pkvs 11(5) len2]
    have r: "parse_pairs fo n (dump_pairs level kvs @ ws @ 0x7D # rest) = Some (kvs, rest)" .
    show ?thesis using v sk sk0 sk2 r False
      by (simp add: f dump_string_def key skip_ws_Cons is_ws_def)
  qed
qed

lemma skip_ws_dump: "skip_ws (json_dump ds) = json_dump ds"
  by (cases "ds = []") (simp_all add: json_dump_def skip_ws_def is_ws_def py_Cons)

lemma loads_dump:
  assumes "plain_items fo ds"
  shows "json_loads fo (json_dump ds) = Some (JArr ds)"
proof -
  from assms have p: "plain fo (JArr ds)" by simp
  have d: "delimited []" by (simp add: delimited_def)
  have "parse_value fo (2 * length (json_dump ds) + 1) (dump_value 0 (JArr ds) @ [])
          = Some (JArr ds, [])"
    by (rule parse_dump(1)[OF p d]) (simp add: json_dump_def)
  then have pv: "parse_value fo (2 * length (json_dump ds) + 1) (skip_ws (json_dump ds))
          = Some (JArr ds, [])"
    by (simp only: json_dump_def append_Nil2 skip_ws_dump[unfolded json_dump_def])
  show ?thesis unfolding json_loads_def pv by (simp add: skip_ws_def)
qed

lemma dump_string_verbatim: "list_all unescaped s \<Longrightarrow> dump_string s = 0x22 # s @ [0x22]"
proof -
  have "list_all unescaped s \<Longrightarrow> concat (map escape s) = s"
    by (induction s) (simp_all add: unescaped_def escape_def)
  then show "list_all unescaped s \<Longrightarrow> dump_string s = 0x22 # s @ [0x22]"
    by (simp add: dump_string_def)
qed

lemma sublist_wrap: "sublist xs ys \<Longrightarrow> sublist xs (a @ ys @ b)"
  unfolding sublist_def
proof -
  assume "\<exists>ps ss. ys = ps @ xs @ ss"
  then obtain ps ss where "ys = ps @ xs @ ss" by blast
  then have "a @ ys @ b = (a @ ps) @ xs @ (ss @ b)" by simp
  then show "\<exists>ps ss. a @ ys @ b = ps @ xs @ ss" by blast
qed

lemma sublist_dump_items: "x \<in> set xs \<Longrightarrow> sublist (dump_value lvl x) (dump_items lvl xs)"
proof (induction xs)
  case Nil
  then show ?case by simp
next
  case (Cons y ys)
  show ?case
  proof (cases "x = y")
    case True
    then show ?thesis by (simp add: sublist_appendI)
  next
    case False
    with Cons.prems have x: "x \<in> set ys" by simp
    then have ne: "ys \<noteq> []" by auto
    from sublist_wrap[OF Cons.IH[OF x], of "dump_value lvl y @ (0x2C # newline_indent lvl)" "[]"]
    show ?thesis using ne by simp
  qed
qed

lemma sublist_dump_pairs:
  "(k, v) \<in> set kvs \<Longrightarrow> sublist (dump_value lvl v) (dump_pairs lvl kvs)"
proof (induction kvs)
  case Nil
  then show ?case by simp
next
  case (Cons kv kvs)
  show ?case
  proof (cases "(k, v) = kv")
    case True
    have "sublist (dump_value lvl v)
            ((dump_string k @ [0x3A, 0x20]) @ dump_value lvl v
              @ (if kvs = [] then [] else 0x2C # newline_indent lvl @ dump_pairs lvl kvs))"
      by (rule sublist_appendI)
    with True show ?thesis by auto
  next
    case False
    with Cons.prems have x: "(k, v) \<in> set kvs" by auto
    then have ne: "kvs \<noteq> []" by auto
    from sublist_wrap[OF Cons.IH[OF x],
        of "dump_string (fst kv) @ [0x3A, 0x20] @ dump_value lvl (snd kv) @ 0x2C # newline_indent lvl" "[]"]
    show ?thesis using ne by simp
  qed
qed

lemma sublist_json_dump:
  assumes "JObj kvs \<in> set ds" and "(k, v) \<in> set kvs"
  shows "sublist (dump_value 2 v) (json_dump ds)"
proof -
  from assms have ne: "ds \<noteq> []" "kvs \<noteq> []" by auto
  have a: "sublist (dump_value 2 v) (dump_pairs 2 kvs)"
    using assms(2) by (rule sublist_dump_pairs)
  have "sublist (dump_pairs 2 kvs)
          ((0x7B # newline_indent 2) @ dump_pairs 2 kvs @ (newline_indent 1 @ [0x7D]))"
    by (rule sublist_appendI)
  then have b: "sublist (dump_pairs 2 kvs) (dump_value 1 (JObj kvs))"
    using ne by (simp add: numeral_2_eq_2)
  have c: "sublist (dump_value 1 (JObj kvs)) (dump_items 1 ds)"
    using assms(1) by (rule sublist_dump_items)
  have "sublist (dump_items 1 ds)
          ((0x5B # newline_indent 1) @ dump_items 1 ds @ (newline_indent 0 @ [0x5D]))"
    by (rule sublist_appendI)
  then have d: "sublist (dump_items 1 ds) (json_dump ds)"
    using ne by (simp add: json_dump_def)
  from a b c d show ?thesis by (meson sublist_order.order_trans)
qed

lemma fs_write_unclean:
  assumes "file_open w filename = None" and "\<not> clean_items ds"
  shows "fs_write w filename ds = Some UnicodeEncodeError"
proof -
  have "\<not> encodable (json_dump ds)"
  proof
    assume "encodable (json_dump ds)"
    then have "clean (JArr ds)" unfolding json_dump_def by (rule encodable_dump(1))
    with assms(2) show False by simp
  qed
  with assms(1) show ?thesis by (simp add: fs_write_def)
qed

lemma concat_block:
  "\<forall>b \<in> set blocks. length b = n \<Longrightarrow> i < length blocks \<Longrightarrow>
     take n (drop (n * i) (concat blocks)) = blocks ! i"
proof (induction blocks arbitrary: i)
  case Nil
  then show ?case by simp
next
  case (Cons b bs)
  from Cons.prems have lb: "length b = n" by simp
  show ?case
  proof (cases i)
    case 0
    with lb show ?thesis by simp
  next
    case (Suc j)
    from Cons.prems Suc have j: "j < length bs" and all: "\<forall>b \<in> set bs. length b = n" by simp_all
    have "drop (n * Suc j) (b @ concat bs) = drop (n * j) (concat bs)"
      using lb by simp
    with Cons.IH[OF all j] Suc show ?thesis by simp
  qed
qed

lemma print_summary_blocks:
  assumes ok: "\<forall>d \<in> set (take 5 ds). showable d"
  shows "\<exists>blocks. print_summary ds =
           (Returned (),
            summary_header (length ds) @
            (if ds = [] then []
             else Print [Lit ''Sample datasets (first 5):'', Lit [CHR 0x0A]] # concat blocks))
        \<and> length blocks = min 5 (length ds)
        \<and> (\<forall>k < length blocks. \<exists>kvs. ds ! k = JObj kvs \<and>
              blocks ! k = map Print (preview_lines (Suc k)
                (get_or kvs (py ''title'') (JStr (py ''No title'')))
                (get_or kvs (py ''publication_year'') (JStr (py ''Unknown year'')))
                (get_or kvs (py ''doi'') (JStr (py ''No DOI'')))
                (flag_or_false kvs)))"
proof -
  from print_summary_showable[OF ok] obtain blocks where
    run: "print_summary ds =
           (Returned (),
            summary_header (length ds) @
            (if ds = [] then []
             else Print [Lit ''Sample datasets (first 5):'', Lit [CHR 0x0A]] # concat blocks))"
    and len: "length blocks = min 5 (length ds)"
    and each: "\<forall>k < length blocks. \<forall>out'. preview (Suc k) (ds ! k) out'
               = (Returned (), out' @ blocks ! k)"
    by (elim exE conjE)
  have "\<exists>kvs. ds ! k = JObj kvs \<and>
              blocks ! k = map Print (preview_lines (Suc k)
                (get_or kvs (py ''title'') (JStr (py ''No title'')))
                (get_or kvs (py ''publication_year'') (JStr (py ''Unknown year'')))
                (get_or kvs (py ''doi'') (JStr (py ''No DOI'')))
                (flag_or_false kvs))" if k: "k < length blocks" for k
  proof -
    from k len have "ds ! k \<in> set (take 5 ds)"
      by (metis in_set_conv_nth length_take min.commute nth_take min_less_iff_conj)
    with ok have "showable (ds ! k)" by blast
    from preview_showable[OF this, of "Suc k" "[]"] obtain kvs where
      d: "ds ! k = JObj kvs"
      and p: "preview (Suc k) (ds ! k) [] = (Returned (), [] @ map Print (preview_lines (Suc k)
                (get_or kvs (py ''title'') (JStr (py ''No title'')))
                (get_or kvs (py ''publication_year'') (JStr (py ''Unknown year'')))
                (get_or kvs (py ''doi'') (JStr (py ''No DOI'')))
                (flag_or_false kvs)))"
      by (elim exE conjE)
    from each k have "preview (Suc k) (ds ! k) [] = (Returned (), [] @ blocks ! k)" by blast
    with p d show ?thesis by (intro exI[of _ kvs]) simp
  qed
  with run len show ?thesis by (intro exI[of _ blocks]) simp
qed

lemma dict_get_get_or: "dict_get (JObj kvs) k dflt = Inr (get_or kvs k dflt)"
  by (simp add: get_or_def split: option.splits)

lemma flag_dict_get:
  "previewable (JObj kvs) \<Longrightarrow>
     \<exists>oa. dict_get (JObj kvs) (py ''open_access'') (JObj []) = Inr oa
        \<and> dict_get oa (py ''is_oa'') (JBool False) = Inr (flag_or_false kvs)"
  by (auto simp: flag_or_false_def get_or_def split: option.splits json.splits)

lemma showable_sample_records: "\<forall>d \<in> set (sample_records n). showable d"
  by (simp add: sample_records_def get_or_def flag_or_false_def)

lemma showable_take: "\<forall>d \<in> set ds. showable d \<Longrightarrow> \<forall>d \<in> set (take k ds). showable d"
  by (meson in_set_takeD)

section \<open>The Fetcher against a server with \<open>k\<close> records\<close>

text \<open>
  C1. For every page size \<open>p \<ge> 1\<close> (so for \<open>1 \<le> p \<le> 200\<close>) and a server holding
  \<open>k\<close> matching records, \<^verbatim>\<open>get_crick_datasets\<close> returns, and the list it returns has
  exactly \<open>min(k, max_results or \<infinity>)\<close> records: it is the start of the
  concatenation of the pages in arrival order, which is the start of the server's
  list. The limit is a count of records: \<^verbatim>\<open>None\<close> or a non-negative integer.
\<close>

theorem fetcher_returns_min_in_order:
  assumes p: "1 \<le> p" and m: "\<forall>n. m = Some n \<longrightarrow> 0 \<le> n"
  shows "\<exists>ds evs. get_crick_datasets (mock_api rs) p m = Some (Returned ds, evs)
          \<and> enat (length ds) = min (enat (length rs)) (max_or_inf m)
          \<and> ds = take (length ds) (arrived rs (requests_of evs))
          \<and> ds = take (length ds) rs"
proof -
  let ?c = "returned_count (length rs) m"
  let ?n = "pages_requested (length rs) p m"
  from mock_run[OF p m, of rs] obtain evs where
    run: "get_crick_datasets (mock_api rs) p m = Some (Returned (take ?c rs), banner @ evs)"
    and rq: "requests_of evs = map (Pair p) [Suc 0 ..< Suc ?n]" by blast
  have le: "?c \<le> length rs"
    by (auto simp: returned_count_def limit_hit_def split: option.splits)
  then have len: "length (take ?c rs) = ?c" by simp
  have arr: "arrived rs (requests_of (banner @ evs)) = take (?n * nat p) rs"
    by (simp only: requests_of_append requests_of_banner rq arrived_pages append_Nil)
  have cn: "?c \<le> ?n * nat p" by (rule returned_le_arrived[OF p m])
  have "take ?c rs = take ?c (take (?n * nat p) rs)" using cn by (simp add: min_def)
  then have a: "take ?c rs = take (length (take ?c rs)) (arrived rs (requests_of (banner @ evs)))"
    using len arr by simp
  have b: "enat (length (take ?c rs)) = min (enat (length rs)) (max_or_inf m)"
    using len returned_count_min[OF m] by simp
  have c: "take ?c rs = take (length (take ?c rs)) rs" using len by simp
  show ?thesis using run a b c by blast
qed
theorem fetcher_returns_min_in_order_witness:
  "(1::int) \<le> 2 \<and> (0::int) \<le> 3 \<and>
   (\<exists>evs. get_crick_datasets (mock_api (sample_records 5)) 2 (Some 3)
            = Some (Returned (take 3 (sample_records 5)), evs))"
proof -
  have "\<forall>n. Some (3::int) = Some n \<longrightarrow> 0 \<le> n" by simp
  from fetcher_returns_min_in_order [OF _ this, of 2 "sample_records 5"]
  obtain ds evs where
    run: "get_crick_datasets (mock_api (sample_records 5)) 2 (Some 3) = Some (Returned ds, evs)"
    and len: "enat (length ds) = min (enat (length (sample_records 5))) (max_or_inf (Some 3))"
    and ds: "ds = take (length ds) (sample_records 5)"
    by auto
  from len have "length ds = 3" by (simp add: max_or_inf_def sample_records_def)
  with ds run show ?thesis by auto
qed

text \<open>
  C4, as amended. When \<^verbatim>\<open>max_results\<close> is set to \<open>m \<ge> 1\<close> and the server holds more
  than \<open>m\<close> records, the list returned has length exactly \<open>m\<close> and is a prefix of
  what the call without a limit returns. The pages \<open>1, \<dots>, N\<close> are all requested
  with the full page size, where \<open>N\<close> is the page holding record \<open>m\<close>; everything
  on them arrives (\<open>min k (N * p)\<close> records, at least \<open>m\<close>) and the result is that
  list cut to \<open>m\<close> in memory.
\<close>

theorem limit_truncates_after_full_page:
  assumes p: "1 \<le> p" and m: "1 \<le> m" and more: "m < int (length rs)"
  shows "\<exists>ds evs full evs'.
           get_crick_datasets (mock_api rs) p (Some m) = Some (Returned ds, evs)
         \<and> get_crick_datasets (mock_api rs) p None = Some (Returned full, evs')
         \<and> int (length ds) = m \<and> prefix ds full
         \<and> requests_of evs = map (Pair p) [1 ..< Suc ((nat m + nat p - 1) div nat p)]
         \<and> ((nat m + nat p - 1) div nat p - 1) * nat p < nat m
         \<and> length (arrived rs (requests_of evs))
             = min (length rs) ((nat m + nat p - 1) div nat p * nat p)
         \<and> nat m \<le> length (arrived rs (requests_of evs))
         \<and> ds = slice_to (arrived rs (requests_of evs)) m"
proof -
  let ?N = "(nat m + nat p - 1) div nat p"
  have P: "0 < nat p" and M: "0 < nat m" using p m by simp_all
  note b = ceil_div_bounds[OF P M]
  have hit: "limit_hit (Some m) (length rs)" using m more by (simp add: limit_hit_def)
  have ok: "\<forall>n. Some m = Some n \<longrightarrow> 0 \<le> n" using m by simp
  from mock_run[OF p ok, of rs] hit obtain evs0 where
    run: "get_crick_datasets (mock_api rs) p (Some m) = Some (Returned (take (nat m) rs), banner @ evs0)"
    and rq0: "requests_of evs0 = map (Pair p) [Suc 0 ..< Suc ?N]"
    by (auto simp: returned_count_def pages_requested_def)
  have rq: "requests_of (banner @ evs0) = map (Pair p) [Suc 0 ..< Suc ?N]"
    by (simp only: requests_of_append requests_of_banner rq0 append_Nil)
  have arr: "arrived rs (requests_of (banner @ evs0)) = take (?N * nat p) rs"
    by (simp only: rq arrived_pages)
  from mock_run_unlimited[OF p, of rs] obtain evs' where
    full: "get_crick_datasets (mock_api rs) p None = Some (Returned rs, evs')" by blast
  have len: "int (length (take (nat m) rs)) = m" using m more by simp
  have pre: "prefix (take (nat m) rs) rs" by (rule take_is_prefix)
  have alen: "length (take (?N * nat p) rs) = min (length rs) (?N * nat p)" by simp
  have mle: "nat m \<le> length (take (?N * nat p) rs)" using b(2) more by simp
  have sl: "take (nat m) rs = slice_to (take (?N * nat p) rs) m"
    using m b(2) by (simp add: slice_to_def min_def)
  show ?thesis
    using run full len pre rq b(1) alen mle sl unfolding arr[symmetric]
    by (intro exI[of _ "take (nat m) rs"] exI[of _ "banner @ evs0"] exI[of _ rs] exI[of _ evs'])
       (simp only: One_nat_def simp_thms)
qed

theorem limit_truncates_after_full_page_witness:
  "(1::int) \<le> 2 \<and> (1::int) \<le> 3 \<and> (3::int) < int (length (sample_records 5)) \<and>
   (\<exists>evs. get_crick_datasets (mock_api (sample_records 5)) 2 (Some 3)
       = Some (Returned (take 3 (sample_records 5)), evs)
     \<and> requests_of evs = [(2, 1), (2, 2)]
     \<and> length (arrived (sample_records 5) (requests_of evs)) = 4)"
proof -
  have a: "(1::int) \<le> 2" and b: "(1::int) \<le> 3" and c: "(3::int) < int (length (sample_records 5))"
    by (simp_all add: length_sample_records)
  from limit_truncates_after_full_page [OF a b c] obtain ds evs where
    run: "get_crick_datasets (mock_api (sample_records 5)) 2 (Some 3) = Some (Returned ds, evs)"
    and rq: "requests_of evs = map (Pair 2) [1 ..< Suc ((nat 3 + nat 2 - 1) div nat 2)]"
    and al: "length (arrived (sample_records 5) (requests_of evs))
             = min (length (sample_records 5)) ((nat 3 + nat 2 - 1) div nat 2 * nat 2)"
    and ds: "ds = slice_to (arrived (sample_records 5) (requests_of evs)) 3"
    by blast
  have rq': "requests_of evs = [(2, 1), (2, 2)]" using rq by (simp add: upt_rec)
  have al': "length (arrived (sample_records 5) (requests_of evs)) = 4"
    using al by (simp add: length_sample_records)
  have "arrived (sample_records 5) (requests_of evs) = take 4 (sample_records 5)"
    by (simp add: rq' arrived_def mock_page_def take_add[symmetric])
  then have "ds = take 3 (sample_records 5)" using ds by (simp add: slice_to_def min_def)
  with run rq' al' a b c show ?thesis by blast
qed

text \<open>
  C4 as stated fails for \<open>m = 0\<close>: the server holds three records, more than \<open>0\<close>,
  and all three come back.
\<close>

theorem limit_zero_not_truncated:
  "map_option fst (get_crick_datasets (mock_api (sample_records 3)) 2 (Some 0))
     = Some (Returned (sample_records 3)) \<and>
   (0::int) < int (length (sample_records 3)) \<and>
   int (length (sample_records 3)) \<noteq> 0"
proof -
  from mock_run_unlimited[of 2 "sample_records 3"] obtain evs where
    "get_crick_datasets (mock_api (sample_records 3)) 2 None = Some (Returned (sample_records 3), evs)"
    by auto
  then show ?thesis by (simp add: get_crick_datasets_limit_zero length_sample_records)
qed

text \<open>
  C8. Against a server with exactly 450 matching records and page size 200, the
  Fetcher (no limit set) issues exactly three requests, for pages 1, 2 and 3,
  which hold 200, 200 and 50 records, and returns all 450 records.
\<close>

theorem scenario_450_three_requests:
  assumes k: "length rs = 450"
  shows "\<exists>evs. get_crick_datasets (mock_api rs) 200 None = Some (Returned rs, evs)
           \<and> requests_of evs = [(200, 1), (200, 2), (200, 3)]
           \<and> map (\<lambda>(per_page, page). length (mock_page rs per_page page)) (requests_of evs)
               = [200, 200, 50]"
proof -
  have "[Suc 0 ..< length rs div nat 200 + 2] = [1, 2, 3]"
    using k by (simp add: upt_rec)
  with mock_run_unlimited[of 200 rs] obtain evs where
    run: "get_crick_datasets (mock_api rs) 200 None = Some (Returned rs, evs)"
    and rq: "requests_of evs = [(200, 1), (200, 2), (200, 3)]" by auto
  have lens: "map (\<lambda>(per_page, page). length (mock_page rs per_page page)) (requests_of evs)
          = [200, 200, 50]"
    using k by (simp add: rq mock_page_def)
  show ?thesis by (intro exI[of _ evs] conjI) (rule run rq lens)+
qed

theorem scenario_450_three_requests_witness:
  "length (sample_records 450) = 450 \<and>
   (\<exists>evs. get_crick_datasets (mock_api (sample_records 450)) 200 None
            = Some (Returned (sample_records 450), evs)
      \<and> requests_of evs = [(200, 1), (200, 2), (200, 3)])"
  using scenario_450_three_requests [of "sample_records 450"] by (auto simp: length_sample_records)

text \<open>
  C10. \<^verbatim>\<open>max_results = 0\<close> is treated as no limit: against any server the call
  behaves as the call with \<^verbatim>\<open>None\<close> does, and against a server with a fixed list
  of records it returns every record.
\<close>

theorem zero_limit_is_no_limit:
  "get_crick_datasets http p (Some 0) = get_crick_datasets http p None \<and>
   (1 \<le> p \<longrightarrow> (\<exists>evs. get_crick_datasets (mock_api rs) p (Some 0) = Some (Returned rs, evs)))"
  using mock_run_unlimited[of p rs] by (auto simp: get_crick_datasets_limit_zero)

theorem zero_limit_is_no_limit_witness:
  "(1::int) \<le> 2 \<and>
   get_crick_datasets (mock_api (sample_records 3)) 2 (Some 0)
     = get_crick_datasets (mock_api (sample_records 3)) 2 None \<and>
   (\<exists>evs. get_crick_datasets (mock_api (sample_records 3)) 2 (Some 0)
            = Some (Returned (sample_records 3), evs)) \<and>
   length (sample_records 3) = 3"
proof -
  note t = zero_limit_is_no_limit [of "mock_api (sample_records 3)" 2 "sample_records 3"]
  have a: "(1::int) \<le> 2" by simp
  from t have e: "get_crick_datasets (mock_api (sample_records 3)) 2 (Some 0)
     = get_crick_datasets (mock_api (sample_records 3)) 2 None" by (rule conjunct1)
  from t a have r: "\<exists>evs. get_crick_datasets (mock_api (sample_records 3)) 2 (Some 0)
            = Some (Returned (sample_records 3), evs)" by blast
  show ?thesis using a e r length_sample_records[of 3] by (intro conjI)
qed

section \<open>Errors\<close>

text \<open>
  C2. The first \<open>n\<close> pages let the loop go on (\<open>n\<close> may be \<open>0\<close>) and the request for
  page \<open>n + 1\<close> raises a \<^verbatim>\<open>RequestException\<close> (a network-layer or HTTP-status
  error). Then \<^verbatim>\<open>get_crick_datasets\<close> returns, without raising, exactly the
  records of the \<open>n\<close> pages before; its last effects are that one request and the
  line reporting the error, so nothing is retried. When this is the call made by
  \<^verbatim>\<open>main\<close>, the records are not empty and the write completes, the process goes on
  to write exactly those records to the file, as the text \<^verbatim>\<open>json.dump\<close> makes
  of them, and to summarize them.
\<close>

theorem request_error_returns_partial:
  assumes pages: "full_pages (http_get w) p n count results"
    and nolimit: "\<not> limit_hit m (length (collected results n))"
    and err: "http_get w p (Suc n) = Raises e"
    and req: "is_RequestException e"
  shows "\<exists>evs.
      get_crick_datasets (http_get w) p m
        = Some (Returned (collected results n),
                evs @ [Get p (Suc n), Print [Lit ''Error fetching data: '', ExnStr e]])
    \<and> requests_of evs = map (Pair p) [1 ..< Suc n]
    \<and> (p = 200 \<and> m = None \<and> collected results n \<noteq> []
         \<and> fs_write w default_filename (collected results n) = None \<longrightarrow>
        (\<exists>st rest. main w = Some (st,
            (evs @ [Get p (Suc n), Print [Lit ''Error fetching data: '', ExnStr e]])
              @ [WriteFile default_filename (json_dump (collected results n)),
                 Print [Lit (CHR 0x0A # ''Saved ''), Num (int (length (collected results n))),
                        Lit '' datasets to '', Lit default_filename]]
              @ snd (print_summary (collected results n)) @ rest)))"
proof -
  from run_to_raise[OF pages nolimit err] obtain evs where
    run0: "get_crick_datasets (http_get w) p m
           = Some (if is_RequestException e
                   then (Returned (collected results n),
                         evs @ [Get p (Suc n), Print [Lit ''Error fetching data: '', ExnStr e]])
                   else (Raised e, evs @ [Get p (Suc n)]))"
    and rq: "requests_of evs = map (Pair p) [1 ..< Suc n]"
    by (elim exE conjE)
  from run0 req have
    run: "get_crick_datasets (http_get w) p m
        = Some (Returned (collected results n),
                evs @ [Get p (Suc n), Print [Lit ''Error fetching data: '', ExnStr e]])"
    by (simp only: if_True)
  show ?thesis
  proof (intro exI[of _ evs] conjI impI)
    show "get_crick_datasets (http_get w) p m
        = Some (Returned (collected results n),
                evs @ [Get p (Suc n), Print [Lit ''Error fetching data: '', ExnStr e]])"
      by (rule run)
    show "requests_of evs = map (Pair p) [1 ..< Suc n]" by (rule rq)
  next
    assume a: "p = 200 \<and> m = None \<and> collected results n \<noteq> []
         \<and> fs_write w default_filename (collected results n) = None"
    then have p: "p = 200" and m: "m = None" and ne: "collected results n \<noteq> []"
      and wr: "fs_write w default_filename (collected results n) = None" by simp_all
    from run have "get_crick_datasets (http_get w) 200 None
        = Some (Returned (collected results n),
                evs @ [Get p (Suc n), Print [Lit ''Error fetching data: '', ExnStr e]])"
      by (simp only: p m)
    from main_proceeds[OF this ne wr]
    show "\<exists>st rest. main w = Some (st,
            (evs @ [Get p (Suc n), Print [Lit ''Error fetching data: '', ExnStr e]])
              @ [WriteFile default_filename (json_dump (collected results n)),
                 Print [Lit (CHR 0x0A # ''Saved ''), Num (int (length (collected results n))),
                        Lit '' datasets to '', Lit default_filename]]
              @ snd (print_summary (collected results n)) @ rest)" .
  qed
qed

theorem request_error_returns_partial_witness:
  "is_RequestException ConnectionError \<and>
   http_get (error_on_page_2 ConnectionError) 200 2 = Raises ConnectionError \<and>
   (\<exists>evs. get_crick_datasets (http_get (error_on_page_2 ConnectionError)) 200 None
            = Some (Returned (take 200 (sample_records 450)), evs)
        \<and> requests_of evs = [(200, 1), (200, 2)]) \<and>
   (\<exists>st out. main (error_on_page_2 ConnectionError) = Some (st, out)
        \<and> WriteFile default_filename (json_dump (take 200 (sample_records 450))) \<in> set out)"
proof -
  let ?w = "error_on_page_2 ConnectionError"
  let ?ds = "take 200 (sample_records 450)"
  let ?r = "\<lambda>j. mock_page (sample_records 450) 200 j"
  let ?err = "[Get 200 (Suc 1), Print [Lit ''Error fetching data: '', ExnStr ConnectionError]]"
  have nl: "\<not> limit_hit None (length (collected ?r 1))"
    by (simp add: limit_hit_def)
  have rq: "is_RequestException ConnectionError" by simp
  have bad: "http_get ?w 200 2 = Raises ConnectionError"
    by (simp add: error_on_page_2_def failing_after_def)
  have "clean_items (collected ?r 1)"
    by (simp only: One_nat_def error_on_page_2_collected clean_items_take clean_sample_records)
  then have wr: "fs_write ?w default_filename (collected ?r 1) = None"
    by (rule error_on_page_2_write)
  have len: "length ?ds = 200" by (simp add: length_sample_records)
  then have "?ds \<noteq> []" by auto
  then have ne: "collected ?r 1 \<noteq> []"
    by (simp only: One_nat_def error_on_page_2_collected not_False_eq_True)
  from request_error_returns_partial [OF error_on_page_2_pages nl error_on_page_2_bad rq]
  obtain evs where
    run: "get_crick_datasets (http_get ?w) 200 None = Some (Returned (collected ?r 1), evs @ ?err)"
    and rqs: "requests_of evs = map (Pair 200) [1 ..< Suc 1]"
    and imp: "(200::int) = 200 \<and> (None::int option) = None \<and> collected ?r 1 \<noteq> []
         \<and> fs_write ?w default_filename (collected ?r 1) = None \<longrightarrow>
        (\<exists>st rest. main ?w = Some (st,
            (evs @ ?err)
              @ [WriteFile default_filename (json_dump (collected ?r 1)),
                 Print [Lit (CHR 0x0A # ''Saved ''), Num (int (length (collected ?r 1))),
                        Lit '' datasets to '', Lit default_filename]]
              @ snd (print_summary (collected ?r 1)) @ rest))"
    by (elim exE conjE)
  from imp ne wr obtain st rest where
    m: "main ?w = Some (st,
            (evs @ ?err)
              @ [WriteFile default_filename (json_dump (collected ?r 1)),
                 Print [Lit (CHR 0x0A # ''Saved ''), Num (int (length (collected ?r 1))),
                        Lit '' datasets to '', Lit default_filename]]
              @ snd (print_summary (collected ?r 1)) @ rest)"
    by blast
  have a: "\<exists>evs. get_crick_datasets (http_get ?w) 200 None = Some (Returned ?ds, evs)
             \<and> requests_of evs = [(200, 1), (200, 2)]"
    using run rqs
    by (intro exI[of _ "evs @ ?err"]) (simp add: error_on_page_2_collected requests_of_append)
  have b: "\<exists>st out. main ?w = Some (st, out) \<and> WriteFile default_filename (json_dump ?ds) \<in> set out"
    using m by (simp add: error_on_page_2_collected)
  show ?thesis using rq bad a b by (intro conjI)
qed

text \<open>
  C3, as amended. An exception raised by the request for page \<open>n + 1\<close> escapes the
  Fetcher exactly when it is not a \<^verbatim>\<open>RequestException\<close>; it then escapes
  \<^verbatim>\<open>main\<close> too and the process ends with status 1. That is the case of a JSON
  parse failure raised as the standard library's \<^verbatim>\<open>json.JSONDecodeError\<close>. Raised
  as \<^verbatim>\<open>requests.exceptions.JSONDecodeError\<close>, a \<^verbatim>\<open>RequestException\<close>, the failure
  is caught like a network error and the records of the pages before are returned.
\<close>

theorem json_failure_caught_iff_request_exception:
  assumes pages: "full_pages (http_get w) p n count results"
    and nolimit: "\<not> limit_hit m (length (collected results n))"
    and err: "http_get w p (Suc n) = Raises e"
  shows "(\<not> is_RequestException e \<longrightarrow>
           (\<exists>evs. get_crick_datasets (http_get w) p m = Some (Raised e, evs)) \<and>
           (p = 200 \<and> m = None \<longrightarrow>
              (\<exists>out. main w = Some (Uncaught e, out)) \<and> exit_status (Uncaught e) = 1))
       \<and> (is_RequestException e \<longrightarrow>
           (\<exists>evs. get_crick_datasets (http_get w) p m = Some (Returned (collected results n), evs)))
       \<and> \<not> is_RequestException StdlibJSONDecodeError
       \<and> is_RequestException RequestsJSONDecodeError"
proof -
  from run_to_raise[OF pages nolimit err] obtain evs where
    run: "get_crick_datasets (http_get w) p m
           = Some (if is_RequestException e
                   then (Returned (collected results n),
                         evs @ [Get p (Suc n), Print [Lit ''Error fetching data: '', ExnStr e]])
                   else (Raised e, evs @ [Get p (Suc n)]))"
    by (elim exE conjE)
  show ?thesis
  proof (intro conjI impI)
    assume "\<not> is_RequestException e"
    with run show "\<exists>evs. get_crick_datasets (http_get w) p m = Some (Raised e, evs)" by simp
  next
    assume a: "\<not> is_RequestException e" and b: "p = 200 \<and> m = None"
    from run a b have "get_crick_datasets (http_get w) 200 None
        = Some (Raised e, evs @ [Get p (Suc n)])" by simp
    from main_fetch_raised[OF this] show "\<exists>out. main w = Some (Uncaught e, out)" by blast
  next
    assume "is_RequestException e"
    with run show "\<exists>evs. get_crick_datasets (http_get w) p m
        = Some (Returned (collected results n), evs)" by simp
  qed simp_all
qed

theorem json_failure_caught_iff_request_exception_witness:
  "http_get (error_on_page_2 StdlibJSONDecodeError) 200 2 = Raises StdlibJSONDecodeError \<and>
   (\<exists>evs. get_crick_datasets (http_get (error_on_page_2 StdlibJSONDecodeError)) 200 None
            = Some (Raised StdlibJSONDecodeError, evs)) \<and>
   (\<exists>out. main (error_on_page_2 StdlibJSONDecodeError) = Some (Uncaught StdlibJSONDecodeError, out)) \<and>
   exit_status (Uncaught StdlibJSONDecodeError) = 1"
proof -
  have nl: "\<not> limit_hit None (length (collected (\<lambda>j. mock_page (sample_records 450) 200 j) 1))"
    by (simp add: limit_hit_def)
  have bad: "http_get (error_on_page_2 StdlibJSONDecodeError) 200 2 = Raises StdlibJSONDecodeError"
    by (simp add: error_on_page_2_def failing_after_def)
  have no: "\<not> is_RequestException StdlibJSONDecodeError" by simp
  note t = json_failure_caught_iff_request_exception [OF error_on_page_2_pages nl error_on_page_2_bad, of StdlibJSONDecodeError]
  from t no have a: "\<exists>evs. get_crick_datasets (http_get (error_on_page_2 StdlibJSONDecodeError)) 200 None
            = Some (Raised StdlibJSONDecodeError, evs)" by blast
  from t no have b: "\<exists>out. main (error_on_page_2 StdlibJSONDecodeError)
            = Some (Uncaught StdlibJSONDecodeError, out)" by blast
  show ?thesis using bad a b by (intro conjI) simp_all
qed

text \<open>
  C3 as stated fails where \<^verbatim>\<open>response.json()\<close> raises
  \<^verbatim>\<open>requests.exceptions.JSONDecodeError\<close>: with a malformed body on page 2 the
  Fetcher returns the 200 records of page 1 and the process ends with status 0.
\<close>

theorem json_failure_caught_by_fetcher:
  "map_option fst (get_crick_datasets (http_get (error_on_page_2 RequestsJSONDecodeError)) 200 None)
     = Some (Returned (take 200 (sample_records 450))) \<and>
   map_option fst (main (error_on_page_2 RequestsJSONDecodeError)) = Some Exit0 \<and>
   exit_status Exit0 = 0"
proof -
  from error_on_page_2_run[of RequestsJSONDecodeError] obtain evs where
    run: "get_crick_datasets (http_get (error_on_page_2 RequestsJSONDecodeError)) 200 None
            = Some (Returned (take 200 (sample_records 450)), evs)" by auto
  have wr: "fs_write (error_on_page_2 RequestsJSONDecodeError) default_filename
              (take 200 (sample_records 450)) = None"
    by (intro error_on_page_2_write clean_items_take clean_sample_records)
  from main_exit0[OF run first_200_nonempty wr previewable_first_200] obtain out where
    "main (error_on_page_2 RequestsJSONDecodeError) = Some (Exit0, out)" by blast
  with run show ?thesis by simp
qed

section \<open>How the process ends\<close>




section \<open>The Persister\<close>

text \<open>
  C5, as amended. Let the records be made of \<^verbatim>\<open>None\<close>, booleans, integers,
  floats other than \<^verbatim>\<open>nan\<close> (the finite ones with a text that \<^verbatim>\<open>float\<close>
  converts back to them), strings, lists and dictionaries with distinct keys, and
  let \<^verbatim>\<open>save_datasets\<close> return: the file opens, the text can be encoded and is
  stored. Then the file holds one text, and \<^verbatim>\<open>json.load\<close> reads from it the
  very list that was saved. For a list that is not empty the text is an array,
  its elements on lines of their own, indented by two spaces. A string field of a
  record whose characters are none of the quote, the backslash and the control
  characters stands in the file as it is, between quotes, whatever else the
  characters are.
\<close>

theorem saved_file_reads_back:
  assumes saved: "fst (save_datasets w datasets filename) = Returned ()"
    and plain: "plain_items float_of datasets"
  shows "\<exists>text.
      snd (save_datasets w datasets filename)
        = [WriteFile filename text,
           Print [Lit (CHR 0x0A # ''Saved ''), Num (int (length datasets)),
                  Lit '' datasets to '', Lit filename]]
    \<and> json_loads float_of text = Some (JArr datasets)
    \<and> (datasets \<noteq> [] \<longrightarrow>
         text = [0x5B, 0x0A, 0x20, 0x20] @ dump_items 1 datasets @ [0x0A, 0x5D])
    \<and> (\<forall>kvs k s. JObj kvs \<in> set datasets \<and> (k, JStr s) \<in> set kvs \<and> list_all unescaped s
          \<longrightarrow> sublist (0x22 # s @ [0x22]) text)"
proof (intro exI[of _ "json_dump datasets"] conjI allI impI)
  from saved have "fs_write w filename datasets = None"
    by (cases "fs_write w filename datasets") (simp_all add: save_datasets_def)
  then show "snd (save_datasets w datasets filename)
        = [WriteFile filename (json_dump datasets),
           Print [Lit (CHR 0x0A # ''Saved ''), Num (int (length datasets)),
                  Lit '' datasets to '', Lit filename]]"
    by (simp add: save_datasets_def)
next
  show "json_loads float_of (json_dump datasets) = Some (JArr datasets)"
    using plain by (rule loads_dump)
next
  assume "datasets \<noteq> []"
  then show "json_dump datasets = [0x5B, 0x0A, 0x20, 0x20] @ dump_items 1 datasets @ [0x0A, 0x5D]"
    by (simp add: json_dump_def newline_indent_def numeral_2_eq_2)
next
  fix kvs k s
  assume a: "JObj kvs \<in> set datasets \<and> (k, JStr s) \<in> set kvs \<and> list_all unescaped s"
  then have "sublist (dump_value 2 (JStr s)) (json_dump datasets)"
    by (intro sublist_json_dump[of kvs datasets k]) simp_all
  with a show "sublist (0x22 # s @ [0x22]) (json_dump datasets)"
    by (simp add: dump_string_verbatim)
qed

theorem saved_file_reads_back_witness:
  "fst (save_datasets all_well [unicode_record] default_filename) = Returned () \<and>
   plain_items read_float [unicode_record] \<and>
   (\<exists>text.
      snd (save_datasets all_well [unicode_record] default_filename)
        = [WriteFile default_filename text,
           Print [Lit (CHR 0x0A # ''Saved ''), Num 1, Lit '' datasets to '', Lit default_filename]]
    \<and> json_loads read_float text = Some (JArr [unicode_record])
    \<and> sublist [0x22, 0x43, 0xE9, 0x3B1, 0x1F600, 0x22] text)"
proof -
  have "fs_write all_well default_filename [unicode_record] = None"
    by (rule fs_write_ok)
       (simp_all add: all_well_def open_ok_def store_ok_def unicode_record_def
          encodable_Cons is_surrogate_def)
  then have saved: "fst (save_datasets all_well [unicode_record] default_filename) = Returned ()"
    by (simp add: save_datasets_def)
  have plain: "plain_items read_float [unicode_record]"
    by (simp add: unicode_record_def read_float_def float_text_def py_def scan_sign_def
        scan_whole_def scan_frac_def scan_exp_def is_digit_def)
  have mem: "JObj [(py ''title'', JStr [0x43, 0xE9, 0x3B1, 0x1F600]),
                   (py ''cited_by_count'', JInt (- 12)),
                   (py ''fwci'', JFloat (Finite 3 (- 1) (py ''1.5''))),
                   (py ''tags'', JArr [JNull, JBool True])] \<in> set [unicode_record]
      \<and> (py ''title'', JStr [0x43, 0xE9, 0x3B1, 0x1F600])
          \<in> set [(py ''title'', JStr [0x43, 0xE9, 0x3B1, 0x1F600]),
                  (py ''cited_by_count'', JInt (- 12)),
                  (py ''fwci'', JFloat (Finite 3 (- 1) (py ''1.5''))),
                  (py ''tags'', JArr [JNull, JBool True])]
      \<and> list_all unescaped [0x43, 0xE9, 0x3B1, 0x1F600]"
    by (simp add: unicode_record_def unescaped_def)
  from saved_file_reads_back [OF saved plain] obtain body where
    out: "snd (save_datasets all_well [unicode_record] default_filename)
        = [WriteFile default_filename body,
           Print [Lit (CHR 0x0A # ''Saved ''), Num (int (length [unicode_record])),
                  Lit '' datasets to '', Lit default_filename]]"
    and reads: "json_loads read_float body = Some (JArr [unicode_record])"
    and verb: "\<forall>kvs k s. JObj kvs \<in> set [unicode_record] \<and> (k, JStr s) \<in> set kvs
                  \<and> list_all unescaped s \<longrightarrow> sublist (0x22 # s @ [0x22]) body"
    by (elim exE conjE)
  from verb mem have "sublist (0x22 # [0x43, 0xE9, 0x3B1, 0x1F600] @ [0x22]) body" by blast
  then have v: "sublist [0x22, 0x43, 0xE9, 0x3B1, 0x1F600, 0x22] body" by simp
  from out have o: "snd (save_datasets all_well [unicode_record] default_filename)
        = [WriteFile default_filename body,
           Print [Lit (CHR 0x0A # ''Saved ''), Num 1, Lit '' datasets to '', Lit default_filename]]"
    by simp
  from saved plain o reads v show ?thesis by (intro conjI exI[of _ body])
qed

text \<open>
  C5 as stated fails on a record that \<^verbatim>\<open>json.dump\<close> can serialize and the file
  cannot take: a title that is a lone surrogate, which the API can send as
  \<^verbatim>\<open>"\ud800"\<close>. With \<^verbatim>\<open>ensure_ascii=False\<close> the surrogate is written as it is,
  the UTF-8 encoder of the file raises \<^verbatim>\<open>UnicodeEncodeError\<close>, and there is no
  file to read back.
\<close>

theorem lone_surrogate_not_saved:
  "plain_items read_float [surrogate_record] \<and>
   save_datasets all_well [surrogate_record] default_filename = (Raised UnicodeEncodeError, [])"
proof -
  have "fs_write all_well default_filename [surrogate_record] = Some UnicodeEncodeError"
    by (rule fs_write_unclean)
       (simp_all add: all_well_def open_ok_def surrogate_record_def encodable_Cons is_surrogate_def)
  then show ?thesis by (simp add: save_datasets_def surrogate_record_def)
qed

section \<open>The Summarizer\<close>

text \<open>
  C6, as amended. Let each of the first five records be a dictionary whose
  \<^verbatim>\<open>open_access\<close> entry is absent or a dictionary, and let the four values printed
  for it be free of lone surrogates. Then \<^verbatim>\<open>print_summary\<close> does not raise, and
  the five lines printed for the record at index \<open>i\<close>, after the four lines of the
  header and the line announcing the sample, are its number with the title, the
  year, the DOI, the open-access flag and an empty line. The title is the value
  under \<^verbatim>\<open>title\<close>, or \<open>No title\<close> when the key is missing; likewise
  \<open>Unknown year\<close> and \<open>No DOI\<close>; the flag is \<^verbatim>\<open>False\<close> when \<^verbatim>\<open>open_access\<close> is
  missing or has no \<^verbatim>\<open>is_oa\<close>.
\<close>

theorem summary_falls_back_on_missing_fields:
  assumes ok: "\<forall>d \<in> set (take 5 datasets). showable d"
  shows "fst (print_summary datasets) = Returned () \<and>
    (\<forall>i < min 5 (length datasets). \<exists>kvs title pub_year doi open_access.
        datasets ! i = JObj kvs
      \<and> take 5 (drop (5 + 5 * i) (snd (print_summary datasets)))
          = [Print [Num (int (Suc i)), Lit ''. '', Val title],
             Print [Lit ''   Year: '', Val pub_year],
             Print [Lit ''   DOI: '', Val doi],
             Print [Lit ''   Open Access: '', Val open_access],
             Print []]
      \<and> (map_of kvs (py ''title'') = None \<longrightarrow> title = JStr (py ''No title''))
      \<and> (\<forall>v. map_of kvs (py ''title'') = Some v \<longrightarrow> title = v)
      \<and> (map_of kvs (py ''publication_year'') = None \<longrightarrow> pub_year = JStr (py ''Unknown year''))
      \<and> (\<forall>v. map_of kvs (py ''publication_year'') = Some v \<longrightarrow> pub_year = v)
      \<and> (map_of kvs (py ''doi'') = None \<longrightarrow> doi = JStr (py ''No DOI''))
      \<and> (\<forall>v. map_of kvs (py ''doi'') = Some v \<longrightarrow> doi = v)
      \<and> (map_of kvs (py ''open_access'') = None \<longrightarrow> open_access = JBool False)
      \<and> (\<forall>oa. map_of kvs (py ''open_access'') = Some (JObj oa) \<longrightarrow>
            (map_of oa (py ''is_oa'') = None \<longrightarrow> open_access = JBool False)
          \<and> (\<forall>v. map_of oa (py ''is_oa'') = Some v \<longrightarrow> open_access = v)))"
proof -
  from print_summary_blocks[OF ok] obtain blocks where
    run: "print_summary datasets =
           (Returned (),
            summary_header (length datasets) @
            (if datasets = [] then []
             else Print [Lit ''Sample datasets (first 5):'', Lit [CHR 0x0A]] # concat blocks))"
    and len: "length blocks = min 5 (length datasets)"
    and each: "\<forall>k < length blocks. \<exists>kvs. datasets ! k = JObj kvs \<and>
              blocks ! k = map Print (preview_lines (Suc k)
                (get_or kvs (py ''title'') (JStr (py ''No title'')))
                (get_or kvs (py ''publication_year'') (JStr (py ''Unknown year'')))
                (get_or kvs (py ''doi'') (JStr (py ''No DOI'')))
                (flag_or_false kvs))"
    by (elim exE conjE)
  have five: "\<forall>b \<in> set blocks. length b = 5"
  proof
    fix b assume "b \<in> set blocks"
    then obtain k where "k < length blocks" "b = blocks ! k" by (auto simp: in_set_conv_nth)
    with each show "length b = 5" by (auto simp: preview_lines_def)
  qed
  have "\<exists>kvs title pub_year doi open_access.
        datasets ! i = JObj kvs
      \<and> take 5 (drop (5 + 5 * i) (snd (print_summary datasets)))
          = [Print [Num (int (Suc i)), Lit ''. '', Val title],
             Print [Lit ''   Year: '', Val pub_year],
             Print [Lit ''   DOI: '', Val doi],
             Print [Lit ''   Open Access: '', Val open_access],
             Print []]
      \<and> (map_of kvs (py ''title'') = None \<longrightarrow> title = JStr (py ''No title''))
      \<and> (\<forall>v. map_of kvs (py ''title'') = Some v \<longrightarrow> title = v)
      \<and> (map_of kvs (py ''publication_year'') = None \<longrightarrow> pub_year = JStr (py ''Unknown year''))
      \<and> (\<forall>v. map_of kvs (py ''publication_year'') = Some v \<longrightarrow> pub_year = v)
      \<and> (map_of kvs (py ''doi'') = None \<longrightarrow> doi = JStr (py ''No DOI''))
      \<and> (\<forall>v. map_of kvs (py ''doi'') = Some v \<longrightarrow> doi = v)
      \<and> (map_of kvs (py ''open_access'') = None \<longrightarrow> open_access = JBool False)
      \<and> (\<forall>oa. map_of kvs (py ''open_access'') = Some (JObj oa) \<longrightarrow>
            (map_of oa (py ''is_oa'') = None \<longrightarrow> open_access = JBool False)
          \<and> (\<forall>v. map_of oa (py ''is_oa'') = Some v \<longrightarrow> open_access = v))"
    if i: "i < min 5 (length datasets)" for i
  proof -
    from i have ne: "datasets \<noteq> []" by auto
    from i len have il: "i < length blocks" by simp
    with each obtain kvs where d: "datasets ! i = JObj kvs"
      and b: "blocks ! i = map Print (preview_lines (Suc i)
                (get_or kvs (py ''title'') (JStr (py ''No title'')))
                (get_or kvs (py ''publication_year'') (JStr (py ''Unknown year'')))
                (get_or kvs (py ''doi'') (JStr (py ''No DOI'')))
                (flag_or_false kvs))" by blast
    let ?head = "summary_header (length datasets)
                   @ [Print [Lit ''Sample datasets (first 5):'', Lit [CHR 0x0A]]]"
    have "snd (print_summary datasets) = ?head @ concat blocks"
      using ne by (simp add: run)
    moreover have "length ?head = 5" by (simp add: summary_header_def)
    ultimately have "drop (5 + 5 * i) (snd (print_summary datasets)) = drop (5 * i) (concat blocks)"
      by (simp only: drop_append) simp
    then have "take 5 (drop (5 + 5 * i) (snd (print_summary datasets))) = blocks ! i"
      using concat_block[OF five il] by simp
    with b have t: "take 5 (drop (5 + 5 * i) (snd (print_summary datasets)))
          = [Print [Num (int (Suc i)), Lit ''. '',
                    Val (get_or kvs (py ''title'') (JStr (py ''No title'')))],
             Print [Lit ''   Year: '',
                    Val (get_or kvs (py ''publication_year'') (JStr (py ''Unknown year'')))],
             Print [Lit ''   DOI: '', Val (get_or kvs (py ''doi'') (JStr (py ''No DOI'')))],
             Print [Lit ''   Open Access: '', Val (flag_or_false kvs)],
             Print []]"
      by (simp only: preview_lines_def list.map)
    show ?thesis
      by (rule exI[of _ kvs],
          rule exI[of _ "get_or kvs (py ''title'') (JStr (py ''No title''))"],
          rule exI[of _ "get_or kvs (py ''publication_year'') (JStr (py ''Unknown year''))"],
          rule exI[of _ "get_or kvs (py ''doi'') (JStr (py ''No DOI''))"],
          rule exI[of _ "flag_or_false kvs"], intro conjI d t)
         (simp_all add: get_or_def flag_or_false_def)
  qed
  then show ?thesis using run by simp
qed

theorem summary_falls_back_on_missing_fields_witness:
  "showable (JObj []) \<and> showable sparse_record \<and>
   fst (print_summary [JObj [], sparse_record]) = Returned () \<and>
   take 5 (drop 5 (snd (print_summary [JObj [], sparse_record])))
     = [Print [Num 1, Lit ''. '', Val (JStr (py ''No title''))],
        Print [Lit ''   Year: '', Val (JStr (py ''Unknown year''))],
        Print [Lit ''   DOI: '', Val (JStr (py ''No DOI''))],
        Print [Lit ''   Open Access: '', Val (JBool False)],
        Print []] \<and>
   take 5 (drop 10 (snd (print_summary [JObj [], sparse_record])))
     = [Print [Num 2, Lit ''. '', Val (JStr (py ''Crick''))],
        Print [Lit ''   Year: '', Val (JStr (py ''Unknown year''))],
        Print [Lit ''   DOI: '', Val (JStr (py ''No DOI''))],
        Print [Lit ''   Open Access: '', Val (JBool False)],
        Print []]"
proof -
  have s0: "showable (JObj [])" by (simp add: get_or_def flag_or_false_def)
  have s1: "showable sparse_record"
    by (simp add: sparse_record_def get_or_def flag_or_false_def)
  from s0 s1 have ok: "\<forall>d \<in> set (take 5 [JObj [], sparse_record]). showable d" by simp
  note t = summary_falls_back_on_missing_fields [OF ok]
  from t have r: "fst (print_summary [JObj [], sparse_record]) = Returned ()" by (rule conjunct1)
  have i0: "0 < min 5 (length [JObj [], sparse_record])" by simp
  have i1: "1 < min 5 (length [JObj [], sparse_record])" by simp
  from conjunct2[OF t, rule_format, OF i0]
  have a: "take 5 (drop 5 (snd (print_summary [JObj [], sparse_record])))
     = [Print [Num 1, Lit ''. '', Val (JStr (py ''No title''))],
        Print [Lit ''   Year: '', Val (JStr (py ''Unknown year''))],
        Print [Lit ''   DOI: '', Val (JStr (py ''No DOI''))],
        Print [Lit ''   Open Access: '', Val (JBool False)],
        Print []]"
    by auto
  from conjunct2[OF t, rule_format, OF i1]
  have b: "take 5 (drop 10 (snd (print_summary [JObj [], sparse_record])))
     = [Print [Num 2, Lit ''. '', Val (JStr (py ''Crick''))],
        Print [Lit ''   Year: '', Val (JStr (py ''Unknown year''))],
        Print [Lit ''   DOI: '', Val (JStr (py ''No DOI''))],
        Print [Lit ''   Open Access: '', Val (JBool False)],
        Print []]"
    by (auto simp: sparse_record_def)
  from s0 s1 r a b show ?thesis by (intro conjI)
qed

text \<open>
  C6 as stated fails on a record whose \<^verbatim>\<open>open_access\<close> is \<^verbatim>\<open>null\<close> and on a
  record that is not a dictionary, where \<^verbatim>\<open>.get\<close> raises \<^verbatim>\<open>AttributeError\<close>,
  and on a record whose title is a lone surrogate, where \<^verbatim>\<open>print\<close> raises
  \<^verbatim>\<open>UnicodeEncodeError\<close>.
\<close>

theorem summary_raises_on_malformed_record:
  "fst (print_summary [JObj [(py ''open_access'', JNull)]]) = Raised AttributeError \<and>
   fst (print_summary [JNull]) = Raised AttributeError \<and>
   fst (print_summary [surrogate_record]) = Raised UnicodeEncodeError"
  by (simp add: print_summary_def preview_def preview_lines_def surrogate_record_def
      encodable_Cons is_surrogate_def)

text \<open>
  C9, as amended. On the empty list \<^verbatim>\<open>print_summary\<close> prints the four lines of the
  header, the last of them the total \<open>0\<close>, and no preview. On a list that is not
  empty and whose first five records can be previewed it prints the header with
  the total, the line announcing the sample, and then one preview of five lines
  for each of the first \<open>min 5 n\<close> records, in order and numbered from 1: all of
  them when there are fewer than five, exactly five otherwise. The preview of a
  record shows the four values read from it.
\<close>

theorem summary_previews_first_five:
  assumes ok: "\<forall>d \<in> set (take 5 datasets). showable d"
  shows "print_summary []
      = (Returned (),
         [Print [Lit (CHR 0x0A # replicate 80 CHR ''='')],
          Print [Lit ''SUMMARY OF FRANCIS CRICK INSTITUTE DATASETS''],
          Print [Lit (replicate 80 CHR ''='')],
          Print [Lit (CHR 0x0A # ''Total datasets found: ''), Num 0, Lit [CHR 0x0A]]]) \<and>
   (datasets \<noteq> [] \<longrightarrow>
    (\<exists>previews.
       print_summary datasets =
         (Returned (),
          [Print [Lit (CHR 0x0A # replicate 80 CHR ''='')],
           Print [Lit ''SUMMARY OF FRANCIS CRICK INSTITUTE DATASETS''],
           Print [Lit (replicate 80 CHR ''='')],
           Print [Lit (CHR 0x0A # ''Total datasets found: ''), Num (int (length datasets)),
                  Lit [CHR 0x0A]],
           Print [Lit ''Sample datasets (first 5):'', Lit [CHR 0x0A]]]
          @ concat previews)
     \<and> length previews = min 5 (length datasets)
     \<and> (length datasets < 5 \<longrightarrow> length previews = length datasets)
     \<and> (5 \<le> length datasets \<longrightarrow> length previews = 5)
     \<and> (\<forall>k < length previews. \<exists>title pub_year doi oa open_access.
           previews ! k
             = [Print [Num (int (Suc k)), Lit ''. '', Val title],
                Print [Lit ''   Year: '', Val pub_year],
                Print [Lit ''   DOI: '', Val doi],
                Print [Lit ''   Open Access: '', Val open_access],
                Print []]
         \<and> dict_get (datasets ! k) (py ''title'') (JStr (py ''No title'')) = Inr title
         \<and> dict_get (datasets ! k) (py ''publication_year'') (JStr (py ''Unknown year''))
             = Inr pub_year
         \<and> dict_get (datasets ! k) (py ''doi'') (JStr (py ''No DOI'')) = Inr doi
         \<and> dict_get (datasets ! k) (py ''open_access'') (JObj []) = Inr oa
         \<and> dict_get oa (py ''is_oa'') (JBool False) = Inr open_access)))"
proof (intro conjI impI)
  show "print_summary []
      = (Returned (),
         [Print [Lit (CHR 0x0A # replicate 80 CHR ''='')],
          Print [Lit ''SUMMARY OF FRANCIS CRICK INSTITUTE DATASETS''],
          Print [Lit (replicate 80 CHR ''='')],
          Print [Lit (CHR 0x0A # ''Total datasets found: ''), Num 0, Lit [CHR 0x0A]]])"
    by (simp add: print_summary_def summary_header_def)
next
  assume ne: "datasets \<noteq> []"
  from print_summary_blocks[OF ok] obtain blocks where
    run: "print_summary datasets =
           (Returned (),
            summary_header (length datasets) @
            (if datasets = [] then []
             else Print [Lit ''Sample datasets (first 5):'', Lit [CHR 0x0A]] # concat blocks))"
    and len: "length blocks = min 5 (length datasets)"
    and each: "\<forall>k < length blocks. \<exists>kvs. datasets ! k = JObj kvs \<and>
              blocks ! k = map Print (preview_lines (Suc k)
                (get_or kvs (py ''title'') (JStr (py ''No title'')))
                (get_or kvs (py ''publication_year'') (JStr (py ''Unknown year'')))
                (get_or kvs (py ''doi'') (JStr (py ''No DOI'')))
                (flag_or_false kvs))"
    by (elim exE conjE)
  have whole: "print_summary datasets =
         (Returned (),
          [Print [Lit (CHR 0x0A # replicate 80 CHR ''='')],
           Print [Lit ''SUMMARY OF FRANCIS CRICK INSTITUTE DATASETS''],
           Print [Lit (replicate 80 CHR ''='')],
           Print [Lit (CHR 0x0A # ''Total datasets found: ''), Num (int (length datasets)),
                  Lit [CHR 0x0A]],
           Print [Lit ''Sample datasets (first 5):'', Lit [CHR 0x0A]]]
          @ concat blocks)"
    using run ne by (simp add: summary_header_def)
  have block: "\<exists>title pub_year doi oa open_access.
           blocks ! k
             = [Print [Num (int (Suc k)), Lit ''. '', Val title],
                Print [Lit ''   Year: '', Val pub_year],
                Print [Lit ''   DOI: '', Val doi],
                Print [Lit ''   Open Access: '', Val open_access],
                Print []]
         \<and> dict_get (datasets ! k) (py ''title'') (JStr (py ''No title'')) = Inr title
         \<and> dict_get (datasets ! k) (py ''publication_year'') (JStr (py ''Unknown year''))
             = Inr pub_year
         \<and> dict_get (datasets ! k) (py ''doi'') (JStr (py ''No DOI'')) = Inr doi
         \<and> dict_get (datasets ! k) (py ''open_access'') (JObj []) = Inr oa
         \<and> dict_get oa (py ''is_oa'') (JBool False) = Inr open_access"
    if k: "k < length blocks" for k
  proof -
    from k len have "datasets ! k \<in> set (take 5 datasets)"
      by (metis in_set_conv_nth length_take min.commute nth_take min_less_iff_conj)
    with ok have sh: "showable (datasets ! k)" by blast
    from each k obtain kvs where d: "datasets ! k = JObj kvs"
      and b: "blocks ! k = map Print (preview_lines (Suc k)
                (get_or kvs (py ''title'') (JStr (py ''No title'')))
                (get_or kvs (py ''publication_year'') (JStr (py ''Unknown year'')))
                (get_or kvs (py ''doi'') (JStr (py ''No DOI'')))
                (flag_or_false kvs))" by blast
    from sh d have "previewable (JObj kvs)" by simp
    from flag_dict_get[OF this] obtain oa where
      oa: "dict_get (JObj kvs) (py ''open_access'') (JObj []) = Inr oa"
      and fl: "dict_get oa (py ''is_oa'') (JBool False) = Inr (flag_or_false kvs)" by blast
    from b have t: "blocks ! k
          = [Print [Num (int (Suc k)), Lit ''. '',
                    Val (get_or kvs (py ''title'') (JStr (py ''No title'')))],
             Print [Lit ''   Year: '',
                    Val (get_or kvs (py ''publication_year'') (JStr (py ''Unknown year'')))],
             Print [Lit ''   DOI: '', Val (get_or kvs (py ''doi'') (JStr (py ''No DOI'')))],
             Print [Lit ''   Open Access: '', Val (flag_or_false kvs)],
             Print []]"
      by (simp only: preview_lines_def list.map)
    show ?thesis
      by (rule exI[of _ "get_or kvs (py ''title'') (JStr (py ''No title''))"],
          rule exI[of _ "get_or kvs (py ''publication_year'') (JStr (py ''Unknown year''))"],
          rule exI[of _ "get_or kvs (py ''doi'') (JStr (py ''No DOI''))"],
          rule exI[of _ oa], rule exI[of _ "flag_or_false kvs"])
         (simp del: dict_get.simps add: t d dict_get_get_or oa[unfolded dict_get_get_or] fl)
  qed
  show "\<exists>previews.
       print_summary datasets =
         (Returned (),
          [Print [Lit (CHR 0x0A # replicate 80 CHR ''='')],
           Print [Lit ''SUMMARY OF FRANCIS CRICK INSTITUTE DATASETS''],
           Print [Lit (replicate 80 CHR ''='')],
           Print [Lit (CHR 0x0A # ''Total datasets found: ''), Num (int (length datasets)),
                  Lit [CHR 0x0A]],
           Print [Lit ''Sample datasets (first 5):'', Lit [CHR 0x0A]]]
          @ concat previews)
     \<and> length previews = min 5 (length datasets)
     \<and> (length datasets < 5 \<longrightarrow> length previews = length datasets)
     \<and> (5 \<le> length datasets \<longrightarrow> length previews = 5)
     \<and> (\<forall>k < length previews. \<exists>title pub_year doi oa open_access.
           previews ! k
             = [Print [Num (int (Suc k)), Lit ''. '', Val title],
                Print [Lit ''   Year: '', Val pub_year],
                Print [Lit ''   DOI: '', Val doi],
                Print [Lit ''   Open Access: '', Val open_access],
                Print []]
         \<and> dict_get (datasets ! k) (py ''title'') (JStr (py ''No title'')) = Inr title
         \<and> dict_get (datasets ! k) (py ''publication_year'') (JStr (py ''Unknown year''))
             = Inr pub_year
         \<and> dict_get (datasets ! k) (py ''doi'') (JStr (py ''No DOI'')) = Inr doi
         \<and> dict_get (datasets ! k) (py ''open_access'') (JObj []) = Inr oa
         \<and> dict_get oa (py ''is_oa'') (JBool False) = Inr open_access)"
  proof (intro exI[of _ blocks] conjI impI allI)
    show "print_summary datasets =
         (Returned (),
          [Print [Lit (CHR 0x0A # replicate 80 CHR ''='')],
           Print [Lit ''SUMMARY OF FRANCIS CRICK INSTITUTE DATASETS''],
           Print [Lit (replicate 80 CHR ''='')],
           Print [Lit (CHR 0x0A # ''Total datasets found: ''), Num (int (length datasets)),
                  Lit [CHR 0x0A]],
           Print [Lit ''Sample datasets (first 5):'', Lit [CHR 0x0A]]]
          @ concat blocks)" by (rule whole)
    show "length blocks = min 5 (length datasets)" by (rule len)
    show "length datasets < 5 \<Longrightarrow> length blocks = length datasets" using len by simp
    show "5 \<le> length datasets \<Longrightarrow> length blocks = 5" using len by simp
    show "k < length blocks \<Longrightarrow> \<exists>title pub_year doi oa open_access.
           blocks ! k
             = [Print [Num (int (Suc k)), Lit ''. '', Val title],
                Print [Lit ''   Year: '', Val pub_year],
                Print [Lit ''   DOI: '', Val doi],
                Print [Lit ''   Open Access: '', Val open_access],
                Print []]
         \<and> dict_get (datasets ! k) (py ''title'') (JStr (py ''No title'')) = Inr title
         \<and> dict_get (datasets ! k) (py ''publication_year'') (JStr (py ''Unknown year''))
             = Inr pub_year
         \<and> dict_get (datasets ! k) (py ''doi'') (JStr (py ''No DOI'')) = Inr doi
         \<and> dict_get (datasets ! k) (py ''open_access'') (JObj []) = Inr oa
         \<and> dict_get oa (py ''is_oa'') (JBool False) = Inr open_access" for k
      by (rule block)
  qed
qed

theorem summary_previews_first_five_witness:
  "(\<exists>previews. print_summary (sample_records 7) =
         (Returned (),
          [Print [Lit (CHR 0x0A # replicate 80 CHR ''='')],
           Print [Lit ''SUMMARY OF FRANCIS CRICK INSTITUTE DATASETS''],
           Print [Lit (replicate 80 CHR ''='')],
           Print [Lit (CHR 0x0A # ''Total datasets found: ''), Num 7, Lit [CHR 0x0A]],
           Print [Lit ''Sample datasets (first 5):'', Lit [CHR 0x0A]]]
          @ concat previews)
      \<and> length previews = 5) \<and>
   (\<exists>previews. print_summary (sample_records 2) =
         (Returned (),
          [Print [Lit (CHR 0x0A # replicate 80 CHR ''='')],
           Print [Lit ''SUMMARY OF FRANCIS CRICK INSTITUTE DATASETS''],
           Print [Lit (replicate 80 CHR ''='')],
           Print [Lit (CHR 0x0A # ''Total datasets found: ''), Num 2, Lit [CHR 0x0A]],
           Print [Lit ''Sample datasets (first 5):'', Lit [CHR 0x0A]]]
          @ concat previews)
      \<and> length previews = 2)"
proof -
  have ok7: "\<forall>d \<in> set (take 5 (sample_records 7)). showable d"
    by (intro showable_take showable_sample_records)
  have ok2: "\<forall>d \<in> set (take 5 (sample_records 2)). showable d"
    by (intro showable_take showable_sample_records)
  have ne7: "sample_records 7 \<noteq> []" by (rule sample_records_nonempty) simp
  have ne2: "sample_records 2 \<noteq> []" by (rule sample_records_nonempty) simp
  from summary_previews_first_five [OF ok7] ne7
  have a: "\<exists>previews. print_summary (sample_records 7) =
         (Returned (),
          [Print [Lit (CHR 0x0A # replicate 80 CHR ''='')],
           Print [Lit ''SUMMARY OF FRANCIS CRICK INSTITUTE DATASETS''],
           Print [Lit (replicate 80 CHR ''='')],
           Print [Lit (CHR 0x0A # ''Total datasets found: ''), Num 7, Lit [CHR 0x0A]],
           Print [Lit ''Sample datasets (first 5):'', Lit [CHR 0x0A]]]
          @ concat previews)
      \<and> length previews = 5"
    by (auto simp: length_sample_records)
  from summary_previews_first_five [OF ok2] ne2
  have b: "\<exists>previews. print_summary (sample_records 2) =
         (Returned (),
          [Print [Lit (CHR 0x0A # replicate 80 CHR ''='')],
           Print [Lit ''SUMMARY OF FRANCIS CRICK INSTITUTE DATASETS''],
           Print [Lit (replicate 80 CHR ''='')],
           Print [Lit (CHR 0x0A # ''Total datasets found: ''), Num 2, Lit [CHR 0x0A]],
           Print [Lit ''Sample datasets (first 5):'', Lit [CHR 0x0A]]]
          @ concat previews)
      \<and> length previews = 2"
    by (auto simp: length_sample_records)
  from a b show ?thesis by (rule conjI)
qed

text \<open>
  C9 as stated fails on a list of one record whose \<^verbatim>\<open>open_access\<close> is
  \<^verbatim>\<open>null\<close>: there are fewer than five records, and the one there is gets no
  preview, the output ending with the line that announces the sample.
\<close>

theorem summary_skips_unpreviewable_record:
  "print_summary [JObj [(py ''open_access'', JNull)]]
     = (Raised AttributeError,
        [Print [Lit (CHR 0x0A # replicate 80 CHR ''='')],
         Print [Lit ''SUMMARY OF FRANCIS CRICK INSTITUTE DATASETS''],
         Print [Lit (replicate 80 CHR ''='')],
         Print [Lit (CHR 0x0A # ''Total datasets found: ''), Num 1, Lit [CHR 0x0A]],
         Print [Lit ''Sample datasets (first 5):'', Lit [CHR 0x0A]]])"
  by (simp add: print_summary_def preview_def summary_header_def)

end
